theory Spec2Isabelle
  imports Main "HOL-Library.Char_ord" "HOL-Library.List_Lexorder"
begin

section \<open>The multi-symbol downloader of yfinance (\<open>yfinance/multi.py\<close>)\<close>

subsection \<open>Default of \<open>ignore_tz\<close>\<close>

text \<open>
  Lines 91--97 of \<open>download\<close>:
  \<^verbatim>\<open>
  if ignore_tz is None:
      if interval[1:] in ['m', 'h']:
          ignore_tz = False
      else:
          ignore_tz = True
  \<close>
  The Python slice \<open>interval[1:]\<close> drops the first character and is the empty string
  on an empty one, which is \<open>drop 1\<close>.
\<close>

definition resolve_ignore_tz :: "bool option \<Rightarrow> string \<Rightarrow> bool" where
  "resolve_ignore_tz ignore_tz_arg interval_arg =
     (case ignore_tz_arg of
        None \<Rightarrow> (if drop 1 interval_arg \<in> set [''m'', ''h''] then False else True)
      | Some b \<Rightarrow> b)"

subsection \<open>Strings\<close>

text \<open>
  A \<open>char\<close> is a byte, and the model is that of ASCII strings: on them \<open>str.upper\<close>
  changes the letters a to z and nothing else, and \<open>str.split()\<close> cuts at runs of the
  ten ASCII characters that Python counts as whitespace and returns no empty piece.
  What Python does with other characters is outside the model; the statements about
  case ask for ASCII tickers (\<open>ascii\<close>).
\<close>

definition char_upper :: "char \<Rightarrow> char" where
  "char_upper c =
     (if 97 \<le> (of_char c :: nat) \<and> (of_char c :: nat) \<le> 122
      then char_of ((of_char c :: nat) - 32) else c)"

definition upper :: "string \<Rightarrow> string" where
  "upper s = map char_upper s"

definition is_space :: "char \<Rightarrow> bool" where
  "is_space c = ((of_char c :: nat) \<in> set [9, 10, 11, 12, 13, 28, 29, 30, 31, 32])"

fun split_ws :: "string \<Rightarrow> string \<Rightarrow> string list" where
  "split_ws cur [] = (if cur = [] then [] else [cur])"
| "split_ws cur (c # cs) =
     (if is_space c then (if cur = [] then split_ws [] cs else cur # split_ws [] cs)
      else split_ws (cur @ [c]) cs)"

definition split :: "string \<Rightarrow> string list" where
  "split s = split_ws [] s"

definition ascii :: "string \<Rightarrow> bool" where
  "ascii s = (\<forall>c \<in> set s. (of_char c :: nat) < 128)"

definition replace_comma :: "string \<Rightarrow> string" where
  "replace_comma s = map (\<lambda>c. if c = CHR '','' then CHR '' '' else c) s"

subsection \<open>Dictionaries\<close>

text \<open>
  A Python \<open>dict\<close> keeps its keys in insertion order, and an assignment to a key it
  already has keeps the key's place: an association list with \<open>dict_set\<close>. A lookup is
  \<open>map_of\<close>.
\<close>

fun dict_set :: "'k \<Rightarrow> 'v \<Rightarrow> ('k \<times> 'v) list \<Rightarrow> ('k \<times> 'v) list" where
  "dict_set k v [] = [(k, v)]"
| "dict_set k v ((k', v') # d) =
     (if k = k' then (k, v) # d else (k', v') # dict_set k v d)"

subsection \<open>Timestamps and frames\<close>

text \<open>
  A row label of a pandas frame: \<open>Zoned i off\<close> is the zone-aware instant \<open>i\<close> (seconds,
  UTC) in a zone whose UTC offset at that instant is \<open>off\<close>; \<open>Wall t\<close> is a zone-naive
  wall-clock time. Two aware labels denote the same row when their instants agree
  (pandas compares aware timestamps as instants); \<open>canon\<close> is the representative.
\<close>

datatype stamp = Zoned int int | Wall int

fun canon :: "stamp \<Rightarrow> stamp" where
  "canon (Zoned i off) = Zoned i 0"
| "canon (Wall t) = Wall t"

fun is_wall :: "stamp \<Rightarrow> bool" where
  "is_wall (Wall t) = True"
| "is_wall (Zoned i off) = False"

fun is_utc :: "stamp \<Rightarrow> bool" where
  "is_utc (Zoned i off) = (off = 0)"
| "is_utc (Wall t) = False"

fun stamp_value :: "stamp \<Rightarrow> int" where
  "stamp_value (Zoned i off) = i"
| "stamp_value (Wall t) = t"

text \<open>\<open>DatetimeIndex.tz_localize(None)\<close> keeps the local wall-clock time and drops the
  zone; \<open>pandas.to_datetime(..., utc=True)\<close> converts an aware label to UTC and reads a
  naive one as UTC.\<close>

fun tz_localize_None :: "stamp \<Rightarrow> stamp" where
  "tz_localize_None (Zoned i off) = Wall (i + off)"
| "tz_localize_None (Wall t) = Wall t"

fun to_datetime_utc :: "stamp \<Rightarrow> stamp" where
  "to_datetime_utc (Zoned i off) = Zoned i 0"
| "to_datetime_utc (Wall t) = Zoned t 0"

datatype cell = NaN | Num int

text \<open>
  A \<open>DataFrame\<close>: the row labels, the names of the column levels, and the columns, each
  with its key (one string per level) and one cell per row.
\<close>

record frame =
  index :: "stamp list"
  names :: "string list"
  columns :: "(string list \<times> cell list) list"

definition nrows :: "frame \<Rightarrow> nat" where
  "nrows f = length (index f)"

text \<open>
  Modelled from the spec: \<open>utils.empty_df\<close> is called here and is not among the
  sources. The spec (section 4.3) calls its result an empty placeholder series, and a
  Bar (section 3) has the fields open, high, low, close, adjusted close and volume:
  the frame has these six columns and no data, on the given row labels (none by
  default).
\<close>

definition price_columns :: "string list" where
  "price_columns = [''Open'', ''High'', ''Low'', ''Close'', ''Adj Close'', ''Volume'']"

definition empty_df :: "stamp list option \<Rightarrow> frame" where
  "empty_df idx =
     (let labels = (case idx of None \<Rightarrow> [] | Some ls \<Rightarrow> ls)
      in \<lparr>index = labels, names = [],
          columns = map (\<lambda>c. ([c], map (\<lambda>l. NaN) labels)) price_columns\<rparr>)"

subsection \<open>What \<open>download\<close> calls and does not define\<close>

datatype exn = Exception (repr: string) (format_exc: string)

text \<open>
  An exception, with its \<open>repr\<close> and the text that \<open>traceback.format_exc()\<close> gives for
  it. The two that pandas raises here:
\<close>

definition InvalidIndexError :: exn where
  "InvalidIndexError = Exception ''InvalidIndexError'' []"

definition ValueError :: exn where
  "ValueError = Exception ''ValueError'' []"

text \<open>
  What \<open>download\<close> depends on and does not fix is a parameter:
  \<^item> \<open>utils.is_isin\<close>, \<open>utils.get_ticker_by_isin\<close> and \<open>Ticker(ticker).history\<close> under the
    call's options (each of the last two returns or raises);
  \<^item> the order in which Python iterates over \<open>set(xs)\<close>;
  \<^item> the scheduling of the tasks started by \<open>_download_one_threaded\<close>: \<open>schedule\<close> gives
    for the tickers the sequence of the tasks' steps, each entry naming the ticker
    whose task makes its next step, and \<open>lag\<close> how many further steps are made between
    the moment at which the result map is full and the moment at which the waiting
    loop of \<open>download\<close> sees that it is;
  \<^item> what pandas makes of indexes of which one has a label twice, or which mix naive
    and aware labels, when it concatenates: an exception or a combined index;
  \<^item> whether DEBUG logging is on.
\<close>

record world =
  is_isin :: "string \<Rightarrow> bool"
  get_ticker_by_isin :: "string \<Rightarrow> exn + string"
  history :: "string \<Rightarrow> exn + frame"
  set_order :: "string list \<Rightarrow> string list"
  schedule :: "string list \<Rightarrow> string list"
  lag :: "string list \<Rightarrow> nat"
  irregular_union :: "stamp list list \<Rightarrow> exn + stamp list"
  debug_logging :: bool

subsection \<open>The shared maps\<close>

text \<open>
  \<open>shared._ISINS\<close>, \<open>shared._DFS\<close>, \<open>shared._ERRORS\<close> and \<open>shared._TRACEBACKS\<close>. Two
  fields are not in the source and record what it does: \<open>assigned\<close> lists every
  assignment \<open>shared._X[key] = ...\<close> in the order made, and \<open>fetched\<close> every call of
  \<open>Ticker(ticker).history\<close>.
\<close>

datatype store = DFS_map | ERRORS_map | TRACEBACKS_map

record shared =
  ISINS :: "(string \<times> string) list"
  DFS :: "(string \<times> frame) list"
  ERRORS :: "(string \<times> string) list"
  TRACEBACKS :: "(string \<times> string) list"
  assigned :: "(store \<times> string) list"
  fetched :: "string list"

subsection \<open>The ticker list (lines 99--115)\<close>

datatype tickers_arg = TickerStr string | TickerList "string list"

definition ticker_list :: "tickers_arg \<Rightarrow> string list" where
  "ticker_list tickers =
     (case tickers of TickerList ts \<Rightarrow> ts | TickerStr s \<Rightarrow> split (replace_comma s))"

text \<open>The loop over the tickers: an ISIN is replaced by the ticker looked up for it, and
  remembered under that ticker. A lookup that raises ends \<open>download\<close>.\<close>

fun accept_isins ::
  "world \<Rightarrow> string list \<Rightarrow> (string \<times> string) list \<Rightarrow> string list
   \<Rightarrow> exn + ((string \<times> string) list \<times> string list)" where
  "accept_isins w [] isins acc = Inr (isins, acc)"
| "accept_isins w (ticker # rest) isins acc =
     (if is_isin w ticker then
        (case get_ticker_by_isin w ticker of
           Inl e \<Rightarrow> Inl e
         | Inr ticker' \<Rightarrow> accept_isins w rest (dict_set ticker' ticker isins) (acc @ [ticker']))
      else accept_isins w rest isins (acc @ [ticker]))"

definition unique_upper :: "world \<Rightarrow> string list \<Rightarrow> string list" where
  "unique_upper w tickers = set_order w (map upper tickers)"

subsection \<open>One fetch (\<open>_download_one\<close>, lines 249--272)\<close>

definition download_one :: "world \<Rightarrow> string \<Rightarrow> shared \<Rightarrow> frame option \<times> shared" where
  "download_one w ticker sh =
     (case history w ticker of
        Inl e \<Rightarrow>
          (None,
           sh\<lparr>DFS := dict_set (upper ticker) (empty_df None) (DFS sh),
              ERRORS := dict_set (upper ticker) (repr e) (ERRORS sh),
              TRACEBACKS := dict_set (upper ticker) (format_exc e) (TRACEBACKS sh),
              assigned := assigned sh @
                [(DFS_map, upper ticker), (ERRORS_map, upper ticker),
                 (TRACEBACKS_map, upper ticker)],
              fetched := fetched sh @ [ticker]\<rparr>)
      | Inr data \<Rightarrow>
          (Some data,
           sh\<lparr>DFS := dict_set (upper ticker) data (DFS sh),
              assigned := assigned sh @ [(DFS_map, upper ticker)],
              fetched := fetched sh @ [ticker]\<rparr>))"

text \<open>
  In a task started by \<open>_download_one_threaded\<close> the assignments of \<open>_download_one\<close>
  are steps between which the steps of other tasks and the waiting loop of \<open>download\<close>
  may come: step 0 is the fetch with the assignment to \<open>shared._DFS\<close> (lines 256--266,
  or 270), step 1 the assignment to \<open>shared._ERRORS\<close> (line 267), step 2 the one to
  \<open>shared._TRACEBACKS\<close> (line 268). A task whose fetch returned has ended after step
  0, one whose fetch raised after step 2.
\<close>

definition task_step :: "world \<Rightarrow> string \<Rightarrow> nat \<Rightarrow> shared \<Rightarrow> shared" where
  "task_step w ticker n sh =
     (case history w ticker of
        Inl e \<Rightarrow>
          (if n = 0 then
             sh\<lparr>DFS := dict_set (upper ticker) (empty_df None) (DFS sh),
                assigned := assigned sh @ [(DFS_map, upper ticker)],
                fetched := fetched sh @ [ticker]\<rparr>
           else if n = 1 then
             sh\<lparr>ERRORS := dict_set (upper ticker) (repr e) (ERRORS sh),
                assigned := assigned sh @ [(ERRORS_map, upper ticker)]\<rparr>
           else if n = 2 then
             sh\<lparr>TRACEBACKS := dict_set (upper ticker) (format_exc e) (TRACEBACKS sh),
                assigned := assigned sh @ [(TRACEBACKS_map, upper ticker)]\<rparr>
           else sh)
      | Inr data \<Rightarrow>
          (if n = 0 then
             sh\<lparr>DFS := dict_set (upper ticker) data (DFS sh),
                assigned := assigned sh @ [(DFS_map, upper ticker)],
                fetched := fetched sh @ [ticker]\<rparr>
           else sh))"

subsection \<open>The pandas operations that \<open>download\<close> uses\<close>

definition cell_at :: "cell list \<Rightarrow> nat \<Rightarrow> cell" where
  "cell_at cs i = (if i < length cs then cs ! i else NaN)"

text \<open>
  \<open>take_rows labels indexer f\<close> lays the rows of \<open>f\<close> out anew: row \<open>i\<close> of the result
  is row \<open>j\<close> of \<open>f\<close> where the indexer has \<open>Some j\<close>, and missing (NaN) where it has
  \<open>None\<close> (pandas writes -1).
\<close>

definition take_cells :: "nat option list \<Rightarrow> cell list \<Rightarrow> cell list" where
  "take_cells indexer cs = map (\<lambda>p. case p of None \<Rightarrow> NaN | Some j \<Rightarrow> cell_at cs j) indexer"

definition take_rows :: "stamp list \<Rightarrow> nat option list \<Rightarrow> frame \<Rightarrow> frame" where
  "take_rows labels indexer f =
     f\<lparr>index := labels, columns := map (\<lambda>(k, cs). (k, take_cells indexer cs)) (columns f)\<rparr>"

definition select_rows :: "nat list \<Rightarrow> frame \<Rightarrow> frame" where
  "select_rows ps f = take_rows (map (\<lambda>p. index f ! p) ps) (map Some ps) f"

fun position :: "stamp \<Rightarrow> stamp list \<Rightarrow> nat option" where
  "position t [] = None"
| "position t (l # ls) =
     (if canon l = canon t then Some 0 else map_option Suc (position t ls))"

definition get_indexer :: "stamp list \<Rightarrow> stamp list \<Rightarrow> nat option list" where
  "get_indexer src target = map (\<lambda>t. position t src) target"

definition is_unique :: "stamp list \<Rightarrow> bool" where
  "is_unique ls = distinct (map canon ls)"

text \<open>
  The row labels of \<open>pandas.concat(..., axis=1, sort=True)\<close>. When no index has a label
  twice and the labels are all naive or all aware, they are the union of the labels,
  each once, sorted by time (aware labels as instants). Otherwise they are what the
  parameter says.
\<close>

definition one_kind :: "stamp list \<Rightarrow> bool" where
  "one_kind ls = (list_all is_wall ls \<or> list_all (\<lambda>l. \<not> is_wall l) ls)"

definition regular :: "stamp list list \<Rightarrow> bool" where
  "regular idxs = (list_all is_unique idxs \<and> one_kind (concat idxs))"

definition union_index :: "world \<Rightarrow> stamp list list \<Rightarrow> exn + stamp list" where
  "union_index w idxs =
     (if regular idxs then Inr (sort_key stamp_value (remdups (map canon (concat idxs))))
      else irregular_union w idxs)"

text \<open>
  \<open>pandas.concat(frames, axis=1, sort=True, keys=keys, names=['Ticker', 'Price'])\<close>:
  every frame is laid out on the combined index and its columns are put under its
  key. A frame whose index is not the combined one is reindexed, which pandas refuses
  (InvalidIndexError) when the frame's index has a label twice. With nothing to
  concatenate pandas raises a ValueError.
\<close>

definition align_rows :: "stamp list \<Rightarrow> frame \<Rightarrow> frame" where
  "align_rows labels f =
     (if index f = labels then f else take_rows labels (get_indexer (index f) labels) f)"

definition concat_columns :: "world \<Rightarrow> (string \<times> frame) list \<Rightarrow> exn + frame" where
  "concat_columns w kfs =
     (if kfs = [] then Inl ValueError
      else
        (case union_index w (map (\<lambda>(k, f). index f) kfs) of
           Inl e \<Rightarrow> Inl e
         | Inr combined \<Rightarrow>
             if list_ex (\<lambda>(k, f). index f \<noteq> combined \<and> \<not> is_unique (index f)) kfs
             then Inl InvalidIndexError
             else Inr \<lparr>index = combined, names = [''Ticker'', ''Price''],
                       columns = concat (map (\<lambda>(k, f).
                           map (\<lambda>(c, cs). (k # c, cs)) (columns (align_rows combined f))) kfs)\<rparr>))"

text \<open>
  \<open>pandas.DataFrame(index=idx, data=df)\<close> is \<open>df\<close> reindexed on \<open>idx\<close> (\<open>df\<close> itself for
  \<open>idx = None\<close>): by label, which pandas refuses (ValueError) when the index of \<open>df\<close>
  is not \<open>idx\<close> and has a label twice.
\<close>

definition DataFrame :: "stamp list option \<Rightarrow> frame \<Rightarrow> exn + frame" where
  "DataFrame idx df =
     (case idx of
        None \<Rightarrow> Inr df
      | Some labels \<Rightarrow>
          if index df = labels then Inr df
          else if is_unique (index df)
          then Inr (take_rows labels (get_indexer (index df) labels) df)
          else Inl ValueError)"

definition row_of :: "frame \<Rightarrow> nat \<Rightarrow> cell list" where
  "row_of f i = map (\<lambda>(k, cs). cell_at cs i) (columns f)"

definition first_occurrences :: "'a list \<Rightarrow> nat list" where
  "first_occurrences xs = filter (\<lambda>i. xs ! i \<notin> set (take i xs)) [0..<length xs]"

definition last_occurrences :: "'a list \<Rightarrow> nat list" where
  "last_occurrences xs = filter (\<lambda>i. xs ! i \<notin> set (drop (Suc i) xs)) [0..<length xs]"

text \<open>
  \<open>DataFrame.drop_duplicates()\<close> compares the rows by their values in all columns, not
  by their labels, and keeps the first of equal rows; a frame without rows or without
  columns is returned as it is. \<open>DataFrame.dropna()\<close> drops the rows with a missing
  value. \<open>df.loc[~df.index.duplicated(keep='last')]\<close> keeps, of the rows with the same
  label, the last.
\<close>

definition drop_duplicates :: "frame \<Rightarrow> frame" where
  "drop_duplicates f =
     (if index f = [] \<or> columns f = [] then f
      else select_rows (first_occurrences (map (row_of f) [0..<nrows f])) f)"

definition dropna :: "frame \<Rightarrow> frame" where
  "dropna f = select_rows (filter (\<lambda>i. NaN \<notin> set (row_of f i)) [0..<nrows f]) f"

definition drop_duplicated_index :: "frame \<Rightarrow> frame" where
  "drop_duplicated_index f = select_rows (last_occurrences (map canon (index f))) f"

text \<open>
  \<open>pandas.concat([a, b], axis=0, sort=True)\<close>: the rows of \<open>a\<close>, then those of \<open>b\<close>. The
  columns are those of \<open>a\<close> when \<open>b\<close> has the same, and else the sorted union of both,
  a frame having no data in a column it lacks; then a frame whose columns are not the
  union is reindexed, which pandas refuses (InvalidIndexError) when that frame has a
  column key twice.
\<close>

definition column_or_missing :: "frame \<Rightarrow> string list \<Rightarrow> cell list" where
  "column_or_missing f k =
     (case map_of (columns f) k of
        None \<Rightarrow> replicate (nrows f) NaN
      | Some cs \<Rightarrow> map (cell_at cs) [0..<nrows f])"

definition concat_rows :: "frame \<Rightarrow> frame \<Rightarrow> exn + frame" where
  "concat_rows a b =
     (let ka = map fst (columns a); kb = map fst (columns b) in
      if ka = kb
      then Inr \<lparr>index = index a @ index b, names = names a,
                columns = map (\<lambda>((k, cs), (k', cs')). (k, cs @ cs')) (zip (columns a) (columns b))\<rparr>
      else
        (let keys = sort (remdups (ka @ kb)) in
         if (ka \<noteq> keys \<and> \<not> distinct ka) \<or> (kb \<noteq> keys \<and> \<not> distinct kb)
         then Inl InvalidIndexError
         else Inr \<lparr>index = index a @ index b, names = names a,
                   columns = map (\<lambda>k. (k, column_or_missing a k @ column_or_missing b k)) keys\<rparr>))"

subsection \<open>The degraded realignment (\<open>_realign_dfs\<close>, lines 213--233)\<close>

text \<open>
  The first loop: \<open>idx\<close> is the index of the first frame that has more rows than every
  frame before it, so of the first among the longest; \<open>None\<close> when no frame has a row.
\<close>

fun longest_index :: "frame list \<Rightarrow> nat \<Rightarrow> stamp list option \<Rightarrow> stamp list option" where
  "longest_index [] idx_len idx = idx"
| "longest_index (df # dfs) idx_len idx =
     (if nrows df > idx_len then longest_index dfs (nrows df) (Some (index df))
      else longest_index dfs idx_len idx)"

text \<open>
  The body of the second loop, for the frame under one key. An exception of the
  \<open>try\<close> block leads to the \<open>except\<close> block; one raised there leaves \<open>_realign_dfs\<close>.
\<close>

definition realign_one :: "stamp list option \<Rightarrow> frame \<Rightarrow> exn + frame" where
  "realign_one idx df =
     (case (case DataFrame idx df of
              Inr d \<Rightarrow> Inr (drop_duplicates d)
            | Inl e \<Rightarrow> concat_rows (empty_df idx) (dropna df)) of
        Inl e \<Rightarrow> Inl e
      | Inr d \<Rightarrow> Inr (drop_duplicated_index d))"

fun realign_entries ::
  "stamp list option \<Rightarrow> (string \<times> frame) list \<Rightarrow> exn + (string \<times> frame) list" where
  "realign_entries idx [] = Inr []"
| "realign_entries idx ((key, df) # rest) =
     (case realign_one idx df of
        Inl e \<Rightarrow> Inl e
      | Inr d \<Rightarrow>
          (case realign_entries idx rest of
             Inl e \<Rightarrow> Inl e
           | Inr rest' \<Rightarrow> Inr ((key, d) # rest')))"

text \<open>Each key of \<open>shared._DFS\<close> is assigned twice: in the \<open>try\<close> or the \<open>except\<close> block,
  and when the duplicate labels are removed.\<close>

definition realign_dfs :: "shared \<Rightarrow> exn + shared" where
  "realign_dfs sh =
     (let idx = longest_index (map snd (DFS sh)) 0 None in
      case realign_entries idx (DFS sh) of
        Inl e \<Rightarrow> Inl e
      | Inr dfs \<Rightarrow>
          Inr (sh\<lparr>DFS := dfs,
                  assigned := assigned sh @
                    concat (map (\<lambda>(key, df). [(DFS_map, key), (DFS_map, key)]) (DFS sh))\<rparr>))"

subsection \<open>\<open>download\<close> (lines 38--210)\<close>

datatype threads_arg = ThreadsBool bool | ThreadsInt int

fun truthy :: "threads_arg \<Rightarrow> bool" where
  "truthy (ThreadsBool b) = b"
| "truthy (ThreadsInt n) = (n \<noteq> 0)"

text \<open>
  The arguments of \<open>download\<close> that it reads itself. The others (\<open>start\<close>, \<open>end\<close>,
  \<open>period\<close>, \<open>actions\<close>, \<open>auto_adjust\<close>, \<open>back_adjust\<close>, \<open>repair\<close>, \<open>keepna\<close>, \<open>prepost\<close>,
  \<open>proxy\<close>, \<open>rounding\<close>, \<open>timeout\<close>, \<open>session\<close>) are handed to the collaborators, and
  \<open>progress\<close> drives the progress bar only.
\<close>

record config =
  threads :: threads_arg
  ignore_tz :: "bool option"
  group_by :: string
  interval :: string
  multi_level_index :: bool

datatype 'a outcome = Returns 'a | Raises exn | Hangs

text \<open>Lines 80--86: with DEBUG logging, multithreading is disabled.\<close>

definition use_threads :: "world \<Rightarrow> config \<Rightarrow> bool" where
  "use_threads w cfg = (if debug_logging w \<and> truthy (threads cfg) then False else truthy (threads cfg))"

text \<open>Lines 99--123: the ticker list, and the shared maps reset.\<close>

definition prepare :: "world \<Rightarrow> tickers_arg \<Rightarrow> exn + (string list \<times> shared)" where
  "prepare w tickers =
     (case accept_isins w (ticker_list tickers) [] [] of
        Inl e \<Rightarrow> Inl e
      | Inr (isins, ts) \<Rightarrow>
          Inr (unique_upper w ts,
               \<lparr>ISINS = isins, DFS = [], ERRORS = [], TRACEBACKS = [],
                assigned = [], fetched = []\<rparr>))"

text \<open>Lines 143--152, the synchronous loop: one \<open>_download_one\<close> after the other.\<close>

definition run_all :: "world \<Rightarrow> string list \<Rightarrow> shared \<Rightarrow> shared" where
  "run_all w ts sh = foldl (\<lambda>s ticker. snd (download_one w ticker s)) sh ts"

text \<open>
  Lines 129--141: one task per ticker (\<open>_download_one_threaded\<close>, lines 236--246, which
  runs \<open>_download_one\<close>), and the loop that waits until \<open>shared._DFS\<close> has as many keys
  as there are tickers. The tasks make their steps as the schedule says; the step of a
  task is its first when the ticker has not come before, and so on. The waiting loop
  looks at \<open>shared._DFS\<close> only: \<open>first_full\<close> counts the steps made until it is full, and
  after \<open>lag\<close> more steps \<open>download\<close> goes on, whatever the tasks have still to do. When
  the schedule ends and a key is still missing, the waiting loop never ends.
\<close>

definition sched_step :: "world \<Rightarrow> string list \<Rightarrow> string list \<Rightarrow> string \<Rightarrow> shared \<Rightarrow> shared" where
  "sched_step w ts past x sh =
     (if x \<in> set ts then task_step w x (count_list past x) sh else sh)"

fun run_schedule :: "world \<Rightarrow> string list \<Rightarrow> string list \<Rightarrow> string list \<Rightarrow> shared \<Rightarrow> shared" where
  "run_schedule w ts past [] sh = sh"
| "run_schedule w ts past (x # xs) sh =
     run_schedule w ts (past @ [x]) xs (sched_step w ts past x sh)"

fun first_full :: "world \<Rightarrow> string list \<Rightarrow> string list \<Rightarrow> string list \<Rightarrow> shared \<Rightarrow> nat option" where
  "first_full w ts past [] sh = (if length (DFS sh) < length ts then None else Some 0)"
| "first_full w ts past (x # xs) sh =
     (if length (DFS sh) < length ts
      then map_option Suc (first_full w ts (past @ [x]) xs (sched_step w ts past x sh))
      else Some 0)"

definition seen_steps :: "world \<Rightarrow> string list \<Rightarrow> shared \<Rightarrow> string list option" where
  "seen_steps w ts sh =
     (case first_full w ts [] (schedule w ts) sh of
        None \<Rightarrow> None
      | Some p \<Rightarrow> Some (take (p + lag w ts) (schedule w ts)))"

definition fetch_all :: "world \<Rightarrow> bool \<Rightarrow> string list \<Rightarrow> shared \<Rightarrow> shared option" where
  "fetch_all w threaded ts sh =
     (if threaded then
        (case seen_steps w ts sh of
           None \<Rightarrow> None
         | Some pre \<Rightarrow> Some (run_schedule w ts [] pre sh))
      else Some (run_all w ts sh))"

text \<open>Lines 187--190: with \<open>ignore_tz\<close>, the index of every frame that has a row is made
  naive.\<close>

definition strip_tz :: "(string \<times> frame) list \<Rightarrow> (string \<times> frame) list" where
  "strip_tz dfs =
     map (\<lambda>(tkr, df). if nrows df > 0
                       then (tkr, df\<lparr>index := map tz_localize_None (index df)\<rparr>)
                       else (tkr, df)) dfs"

text \<open>Lines 192--198: the concatenation, retried after \<open>_realign_dfs\<close> when it raises.\<close>

definition reconcile :: "world \<Rightarrow> shared \<Rightarrow> exn + (frame \<times> shared)" where
  "reconcile w sh =
     (case concat_columns w (DFS sh) of
        Inr data \<Rightarrow> Inr (data, sh)
      | Inl e \<Rightarrow>
          (case realign_dfs sh of
             Inl e' \<Rightarrow> Inl e'
           | Inr sh' \<Rightarrow>
               (case concat_columns w (DFS sh') of
                  Inl e' \<Rightarrow> Inl e'
                | Inr data \<Rightarrow> Inr (data, sh'))))"

text \<open>
  Lines 199--208. \<open>DataFrame.rename(columns=d)\<close> replaces, in every level of a column
  key, a value that is a key of \<open>d\<close>; \<open>swaplevel(0, 1)\<close> exchanges the first two levels;
  \<open>sort_index(level=0, axis=1)\<close> sorts the columns by their keys; \<open>droplevel(n)\<close> with
  \<open>rename_axis(None)\<close> removes a level and the levels' names.
\<close>

definition renamed :: "(string \<times> string) list \<Rightarrow> string \<Rightarrow> string" where
  "renamed d v = (case map_of d v of None \<Rightarrow> v | Some v' \<Rightarrow> v')"

definition rename_columns :: "(string \<times> string) list \<Rightarrow> frame \<Rightarrow> frame" where
  "rename_columns d f = f\<lparr>columns := map (\<lambda>(k, cs). (map (renamed d) k, cs)) (columns f)\<rparr>"

fun swap01 :: "'a list \<Rightarrow> 'a list" where
  "swap01 (a # b # rest) = b # a # rest"
| "swap01 k = k"

definition swaplevel :: "frame \<Rightarrow> frame" where
  "swaplevel f =
     f\<lparr>names := swap01 (names f), columns := map (\<lambda>(k, cs). (swap01 k, cs)) (columns f)\<rparr>"

definition sort_columns :: "frame \<Rightarrow> frame" where
  "sort_columns f = f\<lparr>columns := sort_key fst (columns f)\<rparr>"

definition drop_nth :: "nat \<Rightarrow> 'a list \<Rightarrow> 'a list" where
  "drop_nth n k = take n k @ drop (Suc n) k"

definition droplevel :: "nat \<Rightarrow> frame \<Rightarrow> frame" where
  "droplevel n f = f\<lparr>names := [], columns := map (\<lambda>(k, cs). (drop_nth n k, cs)) (columns f)\<rparr>"

definition finish :: "config \<Rightarrow> nat \<Rightarrow> (string \<times> string) list \<Rightarrow> frame \<Rightarrow> frame" where
  "finish cfg ntickers isins data =
     (let d1 = data\<lparr>index := map to_datetime_utc (index data)\<rparr>;
          d2 = rename_columns isins d1;
          d3 = (if group_by cfg = ''column'' then sort_columns (swaplevel d2) else d2)
      in if \<not> multi_level_index cfg \<and> ntickers = 1
         then droplevel (if group_by cfg = ''ticker'' then 0 else 1) d3
         else d3)"

text \<open>
  \<open>download\<close> in three parts: up to the end of the fetches (lines 99--152), up to the
  first concatenation (lines 187--190), and the rest. It gives the table it returns
  together with the shared maps as it leaves them; logging and the progress bar are
  left out.
\<close>

definition after_fetch :: "world \<Rightarrow> config \<Rightarrow> tickers_arg \<Rightarrow> (string list \<times> shared) outcome" where
  "after_fetch w cfg tickers =
     (case prepare w tickers of
        Inl e \<Rightarrow> Raises e
      | Inr (ts, sh0) \<Rightarrow>
          (case fetch_all w (use_threads w cfg) ts sh0 of
             None \<Rightarrow> Hangs
           | Some sh1 \<Rightarrow> Returns (ts, sh1)))"

definition before_concat :: "world \<Rightarrow> config \<Rightarrow> tickers_arg \<Rightarrow> (string list \<times> shared) outcome" where
  "before_concat w cfg tickers =
     (case after_fetch w cfg tickers of
        Returns (ts, sh1) \<Rightarrow>
          Returns (ts, if resolve_ignore_tz (ignore_tz cfg) (interval cfg)
                       then sh1\<lparr>DFS := strip_tz (DFS sh1)\<rparr> else sh1)
      | Raises e \<Rightarrow> Raises e
      | Hangs \<Rightarrow> Hangs)"

definition download :: "world \<Rightarrow> config \<Rightarrow> tickers_arg \<Rightarrow> (frame \<times> shared) outcome" where
  "download w cfg tickers =
     (case before_concat w cfg tickers of
        Returns (ts, sh2) \<Rightarrow>
          (case reconcile w sh2 of
             Inl e \<Rightarrow> Raises e
           | Inr (data, sh3) \<Rightarrow> Returns (finish cfg (length ts) (ISINS sh3) data, sh3))
      | Raises e \<Rightarrow> Raises e
      | Hangs \<Rightarrow> Hangs)"

text \<open>
  The shared maps once \<open>download\<close> has returned and the tasks have made the steps that
  were left to them when it went on.
\<close>

definition settled :: "world \<Rightarrow> config \<Rightarrow> tickers_arg \<Rightarrow> shared outcome" where
  "settled w cfg tickers =
     (case download w cfg tickers of
        Returns (tbl, sh) \<Rightarrow>
          (case prepare w tickers of
             Inl e \<Rightarrow> Raises e
           | Inr (ts, sh0) \<Rightarrow>
               (if use_threads w cfg then
                  (case seen_steps w ts sh0 of
                     None \<Rightarrow> Hangs
                   | Some pre \<Rightarrow>
                       Returns (run_schedule w ts pre (drop (length pre) (schedule w ts)) sh))
                else Returns sh))
      | Raises e \<Rightarrow> Raises e
      | Hangs \<Rightarrow> Hangs)"

subsection \<open>Notions used in the statements\<close>

text \<open>
  What is asked of what the program does not fix: iterating over \<open>set(xs)\<close> gives every
  element of \<open>xs\<close> once; and every task is scheduled until it has ended, which takes
  three steps at most.
\<close>

definition enumerates :: "(string list \<Rightarrow> string list) \<Rightarrow> bool" where
  "enumerates f = (\<forall>xs. distinct (f xs) \<and> set (f xs) = set xs)"

definition served :: "world \<Rightarrow> string list \<Rightarrow> bool" where
  "served w ts = (\<forall>t \<in> set ts. 3 \<le> count_list (schedule w ts) t)"

text \<open>
  The tickers whose tasks make their step \<open>n\<close> in the steps \<open>xs\<close> that follow the steps
  \<open>past\<close>, in the order in which they make it.
\<close>

fun steps_at :: "nat \<Rightarrow> string list \<Rightarrow> string list \<Rightarrow> string list \<Rightarrow> string list" where
  "steps_at n ts past [] = []"
| "steps_at n ts past (x # xs) =
     (if x \<in> set ts \<and> count_list past x = n then [x] else []) @ steps_at n ts (past @ [x]) xs"

text \<open>
  Two characters that are the same letter, and two strings that differ in the case of
  letters only.
\<close>

definition same_letter :: "char \<Rightarrow> char \<Rightarrow> bool" where
  "same_letter a b =
     (a = b
      \<or> (97 \<le> (of_char a :: nat) \<and> (of_char a :: nat) \<le> 122 \<and> (of_char a :: nat) = of_char b + 32)
      \<or> (97 \<le> (of_char b :: nat) \<and> (of_char b :: nat) \<le> 122 \<and> (of_char b :: nat) = of_char a + 32))"

definition differ_in_case_only :: "string \<Rightarrow> string \<Rightarrow> bool" where
  "differ_in_case_only s t = list_all2 same_letter s t"

text \<open>What one fetch leaves in the result map, the errors of a list of fetches, and
  the assignments one fetch makes.\<close>

definition fetched_frame :: "world \<Rightarrow> string \<Rightarrow> frame" where
  "fetched_frame w t = (case history w t of Inl e \<Rightarrow> empty_df None | Inr d \<Rightarrow> d)"

definition fetch_errors :: "world \<Rightarrow> string list \<Rightarrow> (string \<times> exn) list" where
  "fetch_errors w ts =
     concat (map (\<lambda>t. case history w t of Inl e \<Rightarrow> [(upper t, e)] | Inr d \<Rightarrow> []) ts)"

definition fetch_writes :: "world \<Rightarrow> string \<Rightarrow> (store \<times> string) list" where
  "fetch_writes w t =
     (case history w t of
        Inl e \<Rightarrow> [(DFS_map, upper t), (ERRORS_map, upper t), (TRACEBACKS_map, upper t)]
      | Inr d \<Rightarrow> [(DFS_map, upper t)])"

text \<open>The shared maps as reset at lines 104 and 121--123.\<close>

definition fresh :: "(string \<times> string) list \<Rightarrow> shared" where
  "fresh isins =
     \<lparr>ISINS = isins, DFS = [], ERRORS = [], TRACEBACKS = [], assigned = [], fetched = []\<rparr>"

text \<open>The key under which \<open>download\<close> returns the column that the concatenation has
  under \<open>k\<close>, following lines 201--208.\<close>

definition final_key :: "config \<Rightarrow> nat \<Rightarrow> (string \<times> string) list \<Rightarrow> string list \<Rightarrow> string list" where
  "final_key cfg ntickers isins k =
     (let k1 = map (renamed isins) k;
          k2 = (if group_by cfg = ''column'' then swap01 k1 else k1)
      in if \<not> multi_level_index cfg \<and> ntickers = 1
         then drop_nth (if group_by cfg = ''ticker'' then 0 else 1) k2
         else k2)"

text \<open>
  The cell of a frame in the column with a key and in a row, missing when the frame
  has no such column. \<open>exact_rows f g\<close>: every row of \<open>g\<close> is missing in all columns
  or is a row of \<open>f\<close> with the same label, cell by cell. \<open>labels_within ref f g\<close>:
  every label of \<open>g\<close> is one of the reference index or of \<open>f\<close>.
\<close>

definition cell :: "frame \<Rightarrow> string list \<Rightarrow> nat \<Rightarrow> cell" where
  "cell f k i = (case map_of (columns f) k of None \<Rightarrow> NaN | Some cs \<Rightarrow> cell_at cs i)"

definition exact_rows :: "frame \<Rightarrow> frame \<Rightarrow> bool" where
  "exact_rows f g =
     (\<forall>r < nrows g.
        (\<forall>c. cell g c r = NaN)
        \<or> (\<exists>j < nrows f. canon (index f ! j) = canon (index g ! r)
                          \<and> (\<forall>c. cell g c r = cell f c j)))"

definition labels_within :: "stamp list option \<Rightarrow> frame \<Rightarrow> frame \<Rightarrow> bool" where
  "labels_within ref f g =
     (canon ` set (index g)
        \<subseteq> canon ` ((case ref of None \<Rightarrow> {} | Some ls \<Rightarrow> set ls) \<union> set (index f)))"

text \<open>
  The label under which a fetched label is given to the concatenation, and the label
  under which it is returned. The key of the column \<open>c\<close> of the symbol \<open>s\<close> in a table
  that keeps the ticker level. \<open>laid_out cfg f cells tbl cs\<close>: the column \<open>cs\<close> of the
  table holds, for every row of the fetched frame \<open>f\<close>, the value that the column
  \<open>cells\<close> of \<open>f\<close> has there, in a row with that row's label.
\<close>

definition concat_label :: "config \<Rightarrow> stamp \<Rightarrow> stamp" where
  "concat_label cfg l =
     (if resolve_ignore_tz (ignore_tz cfg) (interval cfg) then tz_localize_None l else l)"

definition out_label :: "config \<Rightarrow> stamp \<Rightarrow> stamp" where
  "out_label cfg l = to_datetime_utc (concat_label cfg l)"

definition ticker_key :: "config \<Rightarrow> (string \<times> string) list \<Rightarrow> string \<Rightarrow> string list \<Rightarrow> string list" where
  "ticker_key cfg isins s c =
     (if group_by cfg = ''column'' then swap01 (map (renamed isins) (s # c))
      else map (renamed isins) (s # c))"

definition laid_out :: "config \<Rightarrow> frame \<Rightarrow> cell list \<Rightarrow> frame \<Rightarrow> cell list \<Rightarrow> bool" where
  "laid_out cfg f cells tbl cs =
     (\<forall>j < nrows f. \<exists>i < nrows tbl.
        index tbl ! i = out_label cfg (index f ! j) \<and> cell_at cs i = cell_at cells j)"

subsection \<open>Sample calls\<close>






text \<open>
  A world in which a symbol has a timestamp twice: A has three bars, the first two
  with the same close; B has two bars at the same time; D has three bars, two of them
  at the same time, and E one bar at a later time; every other symbol fails.
\<close>

definition a_frame :: frame where
  "a_frame = \<lparr>index = [Zoned 10 0, Zoned 20 0, Zoned 30 0], names = [],
               columns = [([''Close''], [Num 5, Num 5, Num 6])]\<rparr>"

definition b_frame :: frame where
  "b_frame = \<lparr>index = [Zoned 50 0, Zoned 50 0], names = [],
               columns = [([''Close''], [Num 8, Num 9])]\<rparr>"

definition d_frame :: frame where
  "d_frame = \<lparr>index = [Zoned 10 0, Zoned 10 0, Zoned 20 0], names = [],
               columns = [([''Close''], [Num 1, Num 2, Num 3])]\<rparr>"

definition e_frame :: frame where
  "e_frame = \<lparr>index = [Zoned 50 0], names = [],
               columns = [([''Close''], [Num 8])]\<rparr>"

definition dup_world :: world where
  "dup_world =
     \<lparr>is_isin = (\<lambda>s. False),
      get_ticker_by_isin = (\<lambda>s. Inr s),
      history = (\<lambda>s. if s = ''A'' then Inr a_frame
                      else if s = ''B'' then Inr b_frame
                      else if s = ''D'' then Inr d_frame
                      else if s = ''E'' then Inr e_frame
                      else Inl (Exception ''YFPricesMissingError()'' ''Traceback'')),
      set_order = remdups,
      schedule = (\<lambda>ts. concat (map (\<lambda>t. [t, t, t]) (rev ts))),
      lag = (\<lambda>ts. 0),
      irregular_union = (\<lambda>idxs. Inl InvalidIndexError),
      debug_logging = False\<rparr>"

definition by_ticker_config :: config where
  "by_ticker_config =
     \<lparr>threads = ThreadsBool False, ignore_tz = Some False, group_by = ''ticker'',
      interval = ''1d'', multi_level_index = True\<rparr>"

text \<open>What \<open>download\<close> returns for A and B in that world, and the shared maps then.\<close>

definition realigned_table :: frame where
  "realigned_table =
     \<lparr>index = [Zoned 10 0, Zoned 20 0, Zoned 30 0, Zoned 50 0],
      names = [''Ticker'', ''Price''],
      columns =
        [([''A'', ''Close''], [Num 5, NaN, Num 6, NaN]),
         ([''B'', ''Adj Close''], [NaN, NaN, NaN, NaN]),
         ([''B'', ''Close''], [NaN, NaN, NaN, Num 9]),
         ([''B'', ''High''], [NaN, NaN, NaN, NaN]),
         ([''B'', ''Low''], [NaN, NaN, NaN, NaN]),
         ([''B'', ''Open''], [NaN, NaN, NaN, NaN]),
         ([''B'', ''Volume''], [NaN, NaN, NaN, NaN])]\<rparr>"

definition realigned_shared :: shared where
  "realigned_shared =
     \<lparr>ISINS = [],
      DFS =
        [(''A'', \<lparr>index = [Zoned 10 0, Zoned 30 0], names = [],
                   columns = [([''Close''], [Num 5, Num 6])]\<rparr>),
         (''B'', \<lparr>index = [Zoned 10 0, Zoned 20 0, Zoned 30 0, Zoned 50 0], names = [],
                   columns =
                     [([''Adj Close''], [NaN, NaN, NaN, NaN]),
                      ([''Close''], [NaN, NaN, NaN, Num 9]),
                      ([''High''], [NaN, NaN, NaN, NaN]),
                      ([''Low''], [NaN, NaN, NaN, NaN]),
                      ([''Open''], [NaN, NaN, NaN, NaN]),
                      ([''Volume''], [NaN, NaN, NaN, NaN])]\<rparr>)],
      ERRORS = [], TRACEBACKS = [],
      assigned =
        [(DFS_map, ''A''), (DFS_map, ''B''), (DFS_map, ''A''),
         (DFS_map, ''A''), (DFS_map, ''B''), (DFS_map, ''B'')],
      fetched = [''A'', ''B'']\<rparr>"

text \<open>The shared maps in that world after the fetches of A and B.\<close>

definition dup_state :: shared where
  "dup_state =
     \<lparr>ISINS = [], DFS = [(''A'', a_frame), (''B'', b_frame)], ERRORS = [], TRACEBACKS = [],
      assigned = [(DFS_map, ''A''), (DFS_map, ''B'')], fetched = [''A'', ''B'']\<rparr>"

section \<open>Theorems\<close>

subsection \<open>The fetches\<close>

lemma char_upper_idem: "char_upper (char_upper c) = char_upper c"
proof (cases "97 \<le> (of_char c :: nat) \<and> (of_char c :: nat) \<le> 122")
  case True
  then have "(of_char c :: nat) - 32 < 256"
    by arith
  then have "(of_char (char_of ((of_char c :: nat) - 32)) :: nat) = of_char c - 32"
    by simp
  with True show ?thesis by (simp add: char_upper_def, arith)
next
  case False
  then have "char_upper c = c" by (auto simp: char_upper_def)
  then show ?thesis by simp
qed

lemma upper_idem: "upper (upper s) = upper s"
  by (simp add: upper_def char_upper_idem)

lemma dict_set_fresh: "k \<notin> fst ` set d \<Longrightarrow> dict_set k v d = d @ [(k, v)]"
  by (induction d) auto

lemma fetch_errors_keys: "fst ` set (fetch_errors w ts) \<subseteq> upper ` set ts"
  by (induction ts) (auto simp: fetch_errors_def split: sum.splits)

lemma fetch_errors_snoc:
  "fetch_errors w (ts @ [t]) =
     fetch_errors w ts @ (case history w t of Inl e \<Rightarrow> [(upper t, e)] | Inr d \<Rightarrow> [])"
  by (simp add: fetch_errors_def)

lemma run_all_snoc: "run_all w (ts @ [t]) sh = snd (download_one w t (run_all w ts sh))"
  by (simp add: run_all_def)

lemma DFS_download_one:
  "DFS (snd (download_one w t s)) = dict_set (upper t) (fetched_frame w t) (DFS s)"
  by (simp add: download_one_def fetched_frame_def split: sum.splits)

lemma ERRORS_download_one:
  "ERRORS (snd (download_one w t s)) =
     (case history w t of Inl e \<Rightarrow> dict_set (upper t) (repr e) (ERRORS s) | Inr d \<Rightarrow> ERRORS s)"
  by (simp add: download_one_def split: sum.splits)

lemma TRACEBACKS_download_one:
  "TRACEBACKS (snd (download_one w t s)) =
     (case history w t of Inl e \<Rightarrow> dict_set (upper t) (format_exc e) (TRACEBACKS s) | Inr d \<Rightarrow> TRACEBACKS s)"
  by (simp add: download_one_def split: sum.splits)

lemma assigned_download_one:
  "assigned (snd (download_one w t s)) = assigned s @ fetch_writes w t"
  by (simp add: download_one_def fetch_writes_def split: sum.splits)

lemma fetched_download_one:
  "fetched (snd (download_one w t s)) = fetched s @ [t]"
  by (simp add: download_one_def split: sum.splits)

lemma ISINS_download_one:
  "ISINS (snd (download_one w t s)) = ISINS s"
  by (simp add: download_one_def split: sum.splits)

lemma fetched_run_all: "fetched (run_all w ts sh) = fetched sh @ ts"
  by (induction ts rule: rev_induct) (simp_all add: run_all_snoc fetched_download_one, simp add: run_all_def)

lemma ISINS_run_all: "ISINS (run_all w ts sh) = ISINS sh"
  by (induction ts rule: rev_induct) (simp_all add: run_all_snoc ISINS_download_one, simp add: run_all_def)

lemma assigned_run_all: "assigned (run_all w ts sh) = assigned sh @ concat (map (fetch_writes w) ts)"
  by (induction ts rule: rev_induct) (simp_all add: run_all_snoc assigned_download_one, simp add: run_all_def)

lemma DFS_run_all:
  "distinct (map upper ts) \<Longrightarrow> upper ` set ts \<inter> fst ` set (DFS sh) = {} \<Longrightarrow>
   DFS (run_all w ts sh) = DFS sh @ map (\<lambda>t. (upper t, fetched_frame w t)) ts"
proof (induction ts rule: rev_induct)
  case Nil
  then show ?case by (simp add: run_all_def)
next
  case (snoc t ts)
  then have ih: "DFS (run_all w ts sh) = DFS sh @ map (\<lambda>t. (upper t, fetched_frame w t)) ts"
    by auto
  have k1: "upper t \<notin> fst ` set (DFS sh @ map (\<lambda>t. (upper t, fetched_frame w t)) ts)"
    using snoc.prems by (auto simp: image_iff)
  show ?case
    by (simp add: run_all_snoc DFS_download_one ih dict_set_fresh[OF k1])
qed


lemma ERRORS_run_all:
  "distinct (map upper ts) \<Longrightarrow> upper ` set ts \<inter> fst ` set (ERRORS sh) = {} \<Longrightarrow>
   ERRORS (run_all w ts sh) = ERRORS sh @ map (\<lambda>(k, e). (k, repr e)) (fetch_errors w ts)"
proof (induction ts rule: rev_induct)
  case Nil
  then show ?case by (simp add: run_all_def fetch_errors_def)
next
  case (snoc t ts)
  then have ih: "ERRORS (run_all w ts sh) = ERRORS sh @ map (\<lambda>(k, e). (k, repr e)) (fetch_errors w ts)"
    by auto
  have "upper t \<notin> upper ` set ts" "upper t \<notin> fst ` set (ERRORS sh)"
    using snoc.prems by auto
  then have k: "upper t \<notin> fst ` set (ERRORS sh @ map (\<lambda>(k, e). (k, repr e)) (fetch_errors w ts))"
    using fetch_errors_keys[of w ts] by (auto simp: image_iff)
  show ?case
    by (cases "history w t")
       (simp_all add: run_all_snoc ERRORS_download_one ih dict_set_fresh[OF k] fetch_errors_snoc)
qed

lemma TRACEBACKS_run_all:
  "distinct (map upper ts) \<Longrightarrow> upper ` set ts \<inter> fst ` set (TRACEBACKS sh) = {} \<Longrightarrow>
   TRACEBACKS (run_all w ts sh) =
     TRACEBACKS sh @ map (\<lambda>(k, e). (k, format_exc e)) (fetch_errors w ts)"
proof (induction ts rule: rev_induct)
  case Nil
  then show ?case by (simp add: run_all_def fetch_errors_def)
next
  case (snoc t ts)
  then have ih: "TRACEBACKS (run_all w ts sh) =
      TRACEBACKS sh @ map (\<lambda>(k, e). (k, format_exc e)) (fetch_errors w ts)"
    by auto
  have "upper t \<notin> upper ` set ts" "upper t \<notin> fst ` set (TRACEBACKS sh)"
    using snoc.prems by auto
  then have k: "upper t \<notin> fst ` set (TRACEBACKS sh @ map (\<lambda>(k, e). (k, format_exc e)) (fetch_errors w ts))"
    using fetch_errors_keys[of w ts] by (auto simp: image_iff)
  show ?case
    by (cases "history w t")
       (simp_all add: run_all_snoc TRACEBACKS_download_one ih dict_set_fresh[OF k] fetch_errors_snoc)
qed

lemma unique_upper_props:
  assumes "enumerates (set_order w)"
  shows "distinct (unique_upper w rs)" "set (unique_upper w rs) = upper ` set rs"
    "map upper (unique_upper w rs) = unique_upper w rs"
proof -
  show d: "distinct (unique_upper w rs)" and s: "set (unique_upper w rs) = upper ` set rs"
    using assms by (simp_all add: enumerates_def unique_upper_def)
  have "\<forall>t \<in> set (unique_upper w rs). upper t = t"
    using s by (auto simp: upper_idem)
  then show "map upper (unique_upper w rs) = unique_upper w rs"
    by (simp add: map_idI)
qed

lemma run_fresh:
  assumes "distinct ts" "map upper ts = ts"
  shows "DFS (run_all w ts (fresh isins)) = map (\<lambda>t. (t, fetched_frame w t)) ts"
    "ERRORS (run_all w ts (fresh isins)) = map (\<lambda>(k, e). (k, repr e)) (fetch_errors w ts)"
    "TRACEBACKS (run_all w ts (fresh isins)) = map (\<lambda>(k, e). (k, format_exc e)) (fetch_errors w ts)"
    "assigned (run_all w ts (fresh isins)) = concat (map (fetch_writes w) ts)"
    "fetched (run_all w ts (fresh isins)) = ts"
    "ISINS (run_all w ts (fresh isins)) = isins"
proof -
  have u: "\<And>t. t \<in> set ts \<Longrightarrow> upper t = t"
    using assms(2) by (metis map_eq_conv map_ident)
  have "DFS (run_all w ts (fresh isins)) = map (\<lambda>t. (upper t, fetched_frame w t)) ts"
    using DFS_run_all[of ts "fresh isins" w] assms by (simp add: fresh_def)
  then show "DFS (run_all w ts (fresh isins)) = map (\<lambda>t. (t, fetched_frame w t)) ts"
    using u by simp
  show "ERRORS (run_all w ts (fresh isins)) = map (\<lambda>(k, e). (k, repr e)) (fetch_errors w ts)"
    using ERRORS_run_all[of ts "fresh isins" w] assms by (simp add: fresh_def)
  show "TRACEBACKS (run_all w ts (fresh isins)) = map (\<lambda>(k, e). (k, format_exc e)) (fetch_errors w ts)"
    using TRACEBACKS_run_all[of ts "fresh isins" w] assms by (simp add: fresh_def)
  show "assigned (run_all w ts (fresh isins)) = concat (map (fetch_writes w) ts)"
    by (simp add: assigned_run_all fresh_def)
  show "fetched (run_all w ts (fresh isins)) = ts"
    by (simp add: fetched_run_all fresh_def)
  show "ISINS (run_all w ts (fresh isins)) = isins"
    by (simp add: ISINS_run_all fresh_def)
qed

lemma fetch_errors_Cons:
  "fetch_errors w (t # ts) =
     (case history w t of Inl e \<Rightarrow> [(upper t, e)] | Inr d \<Rightarrow> []) @ fetch_errors w ts"
  by (simp add: fetch_errors_def)

lemma fetch_errors_append:
  "fetch_errors w (as @ bs) = fetch_errors w as @ fetch_errors w bs"
  by (simp add: fetch_errors_def)

lemma distinct_fetch_errors:
  assumes "distinct ts" and "\<forall>t \<in> set ts. upper t = t"
  shows "distinct (map fst (fetch_errors w ts))"
  using assms
proof (induction ts rule: rev_induct)
  case Nil
  then show ?case by (simp add: fetch_errors_def)
next
  case (snoc t ts)
  have "upper t \<notin> upper ` set ts"
    using snoc.prems by auto
  then have "upper t \<notin> fst ` set (fetch_errors w ts)"
    using fetch_errors_keys[of w ts] by auto
  then show ?case
    using snoc by (cases "history w t") (simp_all add: fetch_errors_snoc)
qed

subsection \<open>The tasks and the waiting loop\<close>

lemma sched_step_ISINS: "ISINS (sched_step w ts past x sh) = ISINS sh"
  by (simp add: sched_step_def task_step_def split: sum.splits)

lemma sched_step_fetched:
  "fetched (sched_step w ts past x sh) =
     fetched sh @ (if x \<in> set ts \<and> count_list past x = 0 then [x] else [])"
  by (simp add: sched_step_def task_step_def split: sum.splits)

lemma sched_step_DFS:
  "DFS (sched_step w ts past x sh) =
     (if x \<in> set ts \<and> count_list past x = 0
      then dict_set (upper x) (fetched_frame w x) (DFS sh) else DFS sh)"
  by (simp add: sched_step_def task_step_def fetched_frame_def split: sum.splits)

lemma sched_step_ERRORS:
  "ERRORS (sched_step w ts past x sh) =
     (if x \<in> set ts \<and> count_list past x = 1
      then (case history w x of
              Inl e \<Rightarrow> dict_set (upper x) (repr e) (ERRORS sh) | Inr d \<Rightarrow> ERRORS sh)
      else ERRORS sh)"
  by (simp add: sched_step_def task_step_def split: sum.splits)

lemma sched_step_TRACEBACKS:
  "TRACEBACKS (sched_step w ts past x sh) =
     (if x \<in> set ts \<and> count_list past x = 2
      then (case history w x of
              Inl e \<Rightarrow> dict_set (upper x) (format_exc e) (TRACEBACKS sh) | Inr d \<Rightarrow> TRACEBACKS sh)
      else TRACEBACKS sh)"
  by (simp add: sched_step_def task_step_def split: sum.splits)

lemma sched_step_assigned:
  "assigned (sched_step w ts past x sh) =
     assigned sh @ (if x \<in> set ts then take 1 (drop (count_list past x) (fetch_writes w x)) else [])"
proof (cases "x \<in> set ts")
  case False
  then show ?thesis by (simp add: sched_step_def)
next
  case True
  consider "count_list past x = 0" | "count_list past x = 1" | "count_list past x = 2"
    | "3 \<le> count_list past x"
    by linarith
  then show ?thesis
    using True
    by cases (simp_all add: sched_step_def task_step_def fetch_writes_def split: sum.splits)
qed

text \<open>Three steps of a task, one after the other, are one call of \<open>_download_one\<close>.\<close>

lemma download_one_steps:
  "snd (download_one w t sh) = task_step w t 2 (task_step w t 1 (task_step w t 0 sh))"
  by (simp add: download_one_def task_step_def split: sum.splits)

lemma steps_at_append:
  "steps_at n ts past (xs @ ys) = steps_at n ts past xs @ steps_at n ts (past @ xs) ys"
  by (induction xs arbitrary: past) simp_all

lemma set_steps_at:
  "set (steps_at n ts past xs) =
     {t \<in> set ts. count_list past t \<le> n \<and> n < count_list (past @ xs) t}"
proof (induction xs arbitrary: past)
  case Nil
  then show ?case by auto
next
  case (Cons x xs)
  have ih: "set (steps_at n ts (past @ [x]) xs) =
     {t \<in> set ts. count_list (past @ [x]) t \<le> n \<and> n < count_list ((past @ [x]) @ xs) t}"
    by (rule Cons.IH)
  show ?case
    unfolding steps_at.simps set_append ih by auto
qed

lemma distinct_steps_at: "distinct (steps_at n ts past xs)"
proof (induction xs arbitrary: past)
  case Nil
  then show ?case by simp
next
  case (Cons x xs)
  have "x \<notin> set (steps_at n ts (past @ [x]) xs)" if "count_list past x = n"
    using that by (simp add: set_steps_at)
  then show ?case
    using Cons.IH by auto
qed

lemma run_schedule_append:
  "run_schedule w ts past (xs @ ys) sh =
     run_schedule w ts (past @ xs) ys (run_schedule w ts past xs sh)"
  by (induction xs arbitrary: past sh) simp_all

lemma fetched_run_schedule:
  "fetched (run_schedule w ts past xs sh) = fetched sh @ steps_at 0 ts past xs"
  by (induction xs arbitrary: past sh) (simp_all add: sched_step_fetched)

lemma ISINS_run_schedule: "ISINS (run_schedule w ts past xs sh) = ISINS sh"
  by (induction xs arbitrary: past sh) (simp_all add: sched_step_ISINS)

lemma DFS_run_schedule:
  assumes u: "\<forall>t \<in> set ts. upper t = t"
    and inv: "fst ` set (DFS sh) \<subseteq> {t. 0 < count_list past t}"
  shows "DFS (run_schedule w ts past xs sh) =
           DFS sh @ map (\<lambda>t. (t, fetched_frame w t)) (steps_at 0 ts past xs)"
  using inv
proof (induction xs arbitrary: past sh)
  case Nil
  then show ?case by simp
next
  case (Cons x xs)
  show ?case
  proof (cases "x \<in> set ts \<and> count_list past x = 0")
    case True
    then have ux: "upper x = x" using u by simp
    have "x \<notin> fst ` set (DFS sh)"
      using Cons.prems True by auto
    then have d: "DFS (sched_step w ts past x sh) = DFS sh @ [(x, fetched_frame w x)]"
      using True ux by (simp add: sched_step_DFS dict_set_fresh)
    have "fst ` set (DFS (sched_step w ts past x sh)) \<subseteq> {t. 0 < count_list (past @ [x]) t}"
      using Cons.prems d by auto
    from Cons.IH[OF this] show ?thesis
      using True d by simp
  next
    case False
    then have d: "DFS (sched_step w ts past x sh) = DFS sh"
      by (auto simp: sched_step_DFS)
    have "fst ` set (DFS (sched_step w ts past x sh)) \<subseteq> {t. 0 < count_list (past @ [x]) t}"
      using Cons.prems d by auto
    from Cons.IH[OF this] show ?thesis
      using False d by auto
  qed
qed

lemma ERRORS_run_schedule:
  assumes u: "\<forall>t \<in> set ts. upper t = t"
    and inv: "fst ` set (ERRORS sh) \<subseteq> {t. 1 < count_list past t}"
  shows "ERRORS (run_schedule w ts past xs sh) =
           ERRORS sh @ map (\<lambda>(k, e). (k, repr e)) (fetch_errors w (steps_at 1 ts past xs))"
  using inv
proof (induction xs arbitrary: past sh)
  case Nil
  then show ?case by (simp add: fetch_errors_def)
next
  case (Cons x xs)
  show ?case
  proof (cases "x \<in> set ts \<and> count_list past x = 1")
    case True
    then have ux: "upper x = x" using u by simp
    have nk: "x \<notin> fst ` set (ERRORS sh)"
      using Cons.prems True by auto
    show ?thesis
    proof (cases "history w x")
      case (Inl e)
      have d: "ERRORS (sched_step w ts past x sh) = ERRORS sh @ [(x, repr e)]"
        using True ux Inl nk by (simp add: sched_step_ERRORS dict_set_fresh)
      have "fst ` set (ERRORS (sched_step w ts past x sh)) \<subseteq> {t. 1 < count_list (past @ [x]) t}"
        using Cons.prems d True by auto
      from Cons.IH[OF this] show ?thesis
        using True d Inl ux by (simp add: fetch_errors_Cons)
    next
      case (Inr f)
      have d: "ERRORS (sched_step w ts past x sh) = ERRORS sh"
        using True Inr by (simp add: sched_step_ERRORS)
      have "fst ` set (ERRORS (sched_step w ts past x sh)) \<subseteq> {t. 1 < count_list (past @ [x]) t}"
        using Cons.prems d by auto
      from Cons.IH[OF this] show ?thesis
        using True d Inr by (simp add: fetch_errors_Cons)
    qed
  next
    case False
    then have d: "ERRORS (sched_step w ts past x sh) = ERRORS sh"
      by (auto simp: sched_step_ERRORS)
    have "fst ` set (ERRORS (sched_step w ts past x sh)) \<subseteq> {t. 1 < count_list (past @ [x]) t}"
      using Cons.prems d by auto
    from Cons.IH[OF this] show ?thesis
      using False d by auto
  qed
qed

lemma TRACEBACKS_run_schedule:
  assumes u: "\<forall>t \<in> set ts. upper t = t"
    and inv: "fst ` set (TRACEBACKS sh) \<subseteq> {t. 2 < count_list past t}"
  shows "TRACEBACKS (run_schedule w ts past xs sh) =
           TRACEBACKS sh @
           map (\<lambda>(k, e). (k, format_exc e)) (fetch_errors w (steps_at 2 ts past xs))"
  using inv
proof (induction xs arbitrary: past sh)
  case Nil
  then show ?case by (simp add: fetch_errors_def)
next
  case (Cons x xs)
  show ?case
  proof (cases "x \<in> set ts \<and> count_list past x = 2")
    case True
    then have ux: "upper x = x" using u by simp
    have nk: "x \<notin> fst ` set (TRACEBACKS sh)"
      using Cons.prems True by auto
    show ?thesis
    proof (cases "history w x")
      case (Inl e)
      have d: "TRACEBACKS (sched_step w ts past x sh) = TRACEBACKS sh @ [(x, format_exc e)]"
        using True ux Inl nk by (simp add: sched_step_TRACEBACKS dict_set_fresh)
      have "fst ` set (TRACEBACKS (sched_step w ts past x sh))
              \<subseteq> {t. 2 < count_list (past @ [x]) t}"
        using Cons.prems d True by auto
      from Cons.IH[OF this] show ?thesis
        using True d Inl ux by (simp add: fetch_errors_Cons)
    next
      case (Inr f)
      have d: "TRACEBACKS (sched_step w ts past x sh) = TRACEBACKS sh"
        using True Inr by (simp add: sched_step_TRACEBACKS)
      have "fst ` set (TRACEBACKS (sched_step w ts past x sh))
              \<subseteq> {t. 2 < count_list (past @ [x]) t}"
        using Cons.prems d by auto
      from Cons.IH[OF this] show ?thesis
        using True d Inr by (simp add: fetch_errors_Cons)
    qed
  next
    case False
    then have d: "TRACEBACKS (sched_step w ts past x sh) = TRACEBACKS sh"
      by (auto simp: sched_step_TRACEBACKS)
    have "fst ` set (TRACEBACKS (sched_step w ts past x sh))
            \<subseteq> {t. 2 < count_list (past @ [x]) t}"
      using Cons.prems d by auto
    from Cons.IH[OF this] show ?thesis
      using False d by auto
  qed
qed

lemma first_full_Some:
  "first_full w ts past xs sh = Some p \<Longrightarrow>
     p \<le> length xs \<and> length ts \<le> length (DFS (run_schedule w ts past (take p xs) sh))"
proof (induction xs arbitrary: past sh p)
  case Nil
  then show ?case by (simp split: if_splits)
next
  case (Cons x xs)
  show ?case
  proof (cases "length (DFS sh) < length ts")
    case True
    then obtain q where q: "first_full w ts (past @ [x]) xs (sched_step w ts past x sh) = Some q"
        "p = Suc q"
      using Cons.prems by auto
    from Cons.IH[OF q(1)] show ?thesis
      using q(2) by simp
  next
    case False
    then have "p = 0" using Cons.prems by simp
    then show ?thesis using False by simp
  qed
qed

lemma first_full_None:
  "first_full w ts past xs sh = None \<Longrightarrow>
     length (DFS (run_schedule w ts past xs sh)) < length ts"
  by (induction xs arbitrary: past sh) (auto split: if_splits)

subsection \<open>The shared maps after the fetches\<close>

lemma count_sched_step:
  "count_list (assigned (sched_step w ts past tk sh)) (DFS_map, key) =
     count_list (assigned sh) (DFS_map, key) + count_list (map upper (steps_at 0 ts past [tk])) key"
  "count_list (assigned (sched_step w ts past tk sh)) (ERRORS_map, key) =
     count_list (assigned sh) (ERRORS_map, key)
     + count_list (map fst (fetch_errors w (steps_at 1 ts past [tk]))) key"
  "count_list (assigned (sched_step w ts past tk sh)) (TRACEBACKS_map, key) =
     count_list (assigned sh) (TRACEBACKS_map, key)
     + count_list (map fst (fetch_errors w (steps_at 2 ts past [tk]))) key"
  by (cases "history w tk"; auto simp: sched_step_def task_step_def fetch_errors_def)+

lemma steps_at_Cons:
  "steps_at n ts past (x # xs) = steps_at n ts past [x] @ steps_at n ts (past @ [x]) xs"
  by simp

lemma count_DFS_run_schedule:
  "count_list (assigned (run_schedule w ts past xs sh)) (DFS_map, key) =
     count_list (assigned sh) (DFS_map, key) + count_list (map upper (steps_at 0 ts past xs)) key"
proof (induction xs arbitrary: past sh)
  case Nil
  then show ?case by simp
next
  case (Cons x xs)
  show ?case
    unfolding run_schedule.simps steps_at_Cons[of 0 ts past x xs]
    by (simp only: Cons.IH count_sched_step(1) map_append count_list_append add.assoc)
qed

lemma count_ERRORS_run_schedule:
  "count_list (assigned (run_schedule w ts past xs sh)) (ERRORS_map, key) =
     count_list (assigned sh) (ERRORS_map, key)
     + count_list (map fst (fetch_errors w (steps_at 1 ts past xs))) key"
proof (induction xs arbitrary: past sh)
  case Nil
  then show ?case by (simp add: fetch_errors_def)
next
  case (Cons x xs)
  show ?case
    unfolding run_schedule.simps steps_at_Cons[of 1 ts past x xs]
    by (simp only: Cons.IH count_sched_step(2) fetch_errors_append map_append
          count_list_append add.assoc)
qed

lemma count_TRACEBACKS_run_schedule:
  "count_list (assigned (run_schedule w ts past xs sh)) (TRACEBACKS_map, key) =
     count_list (assigned sh) (TRACEBACKS_map, key)
     + count_list (map fst (fetch_errors w (steps_at 2 ts past xs))) key"
proof (induction xs arbitrary: past sh)
  case Nil
  then show ?case by (simp add: fetch_errors_def)
next
  case (Cons x xs)
  show ?case
    unfolding run_schedule.simps steps_at_Cons[of 2 ts past x xs]
    by (simp only: Cons.IH count_sched_step(3) fetch_errors_append map_append
          count_list_append add.assoc)
qed

lemma count_writes_run_all:
  "count_list (concat (map (fetch_writes w) ts)) (DFS_map, key) = count_list (map upper ts) key"
  "count_list (concat (map (fetch_writes w) ts)) (ERRORS_map, key) =
     count_list (map fst (fetch_errors w ts)) key"
  "count_list (concat (map (fetch_writes w) ts)) (TRACEBACKS_map, key) =
     count_list (map fst (fetch_errors w ts)) key"
proof -
  have "count_list (concat (map (fetch_writes w) ts)) (DFS_map, key) = count_list (map upper ts) key
     \<and> count_list (concat (map (fetch_writes w) ts)) (ERRORS_map, key) =
         count_list (map fst (fetch_errors w ts)) key
     \<and> count_list (concat (map (fetch_writes w) ts)) (TRACEBACKS_map, key) =
         count_list (map fst (fetch_errors w ts)) key"
  proof (induction ts)
    case Nil
    then show ?case by (simp add: fetch_errors_def)
  next
    case (Cons t ts)
    then show ?case
      by (cases "history w t") (simp_all add: fetch_writes_def fetch_errors_Cons)
  qed
  then show
    "count_list (concat (map (fetch_writes w) ts)) (DFS_map, key) = count_list (map upper ts) key"
    "count_list (concat (map (fetch_writes w) ts)) (ERRORS_map, key) =
       count_list (map fst (fetch_errors w ts)) key"
    "count_list (concat (map (fetch_writes w) ts)) (TRACEBACKS_map, key) =
       count_list (map fst (fetch_errors w ts)) key"
    by simp_all
qed

lemma map_of_tabulate:
  "map_of (map (\<lambda>t. (t, g t)) ts) s = (if s \<in> set ts then Some (g s) else None)"
  by (induction ts) auto

lemma map_of_fetch_errors:
  assumes "\<forall>t \<in> set ts. upper t = t"
  shows "map_of (map (\<lambda>(k, e). (k, h e)) (fetch_errors w ts)) s =
           (if s \<in> set ts then (case history w s of Inl e \<Rightarrow> Some (h e) | Inr d \<Rightarrow> None)
            else None)"
  using assms
proof (induction ts)
  case Nil
  then show ?case by (simp add: fetch_errors_def)
next
  case (Cons t ts)
  then have ih: "map_of (map (\<lambda>(k, e). (k, h e)) (fetch_errors w ts)) s =
           (if s \<in> set ts then (case history w s of Inl e \<Rightarrow> Some (h e) | Inr d \<Rightarrow> None)
            else None)"
    and u: "upper t = t"
    by auto
  show ?case
    by (cases "history w t") (auto simp: fetch_errors_Cons ih u split: sum.splits)
qed

lemma map_upper_fixed: "\<forall>t \<in> set ts. upper t = t \<Longrightarrow> map upper ts = ts"
  by (simp add: map_idI)

lemma prepare_Inr:
  "accept_isins w (ticker_list tickers) [] [] = Inr (isins, resolved) \<Longrightarrow>
     prepare w tickers = Inr (unique_upper w resolved, fresh isins)"
  by (simp add: prepare_def fresh_def)

lemma take_then_rest: "take n xs @ drop (length (take n xs)) xs = xs"
  by (simp add: min_def)

text \<open>When the waiting loop ends, every task has made its first step.\<close>

lemma seen_steps_full:
  assumes u: "\<forall>t \<in> set ts. upper t = t" and d: "distinct ts"
    and s: "seen_steps w ts (fresh isins) = Some pre"
  shows "set (steps_at 0 ts [] pre) = set ts"
    and "pre @ drop (length pre) (schedule w ts) = schedule w ts"
proof -
  obtain p where p: "first_full w ts [] (schedule w ts) (fresh isins) = Some p"
    and pre: "pre = take (p + lag w ts) (schedule w ts)"
    using s by (auto simp: seen_steps_def split: option.splits)
  show "pre @ drop (length pre) (schedule w ts) = schedule w ts"
    unfolding pre by (rule take_then_rest)
  let ?a = "take p (schedule w ts)"
  have "length ts \<le> length (DFS (run_schedule w ts [] ?a (fresh isins)))"
    using first_full_Some[OF p] by simp
  moreover have "DFS (run_schedule w ts [] ?a (fresh isins)) =
      map (\<lambda>t. (t, fetched_frame w t)) (steps_at 0 ts [] ?a)"
    using DFS_run_schedule[OF u, of "fresh isins" "[]" w ?a] by (simp add: fresh_def)
  ultimately have l: "length ts \<le> length (steps_at 0 ts [] ?a)"
    by simp
  have "pre = ?a @ take (lag w ts) (drop p (schedule w ts))"
    unfolding pre by (simp add: take_add)
  then have "length (steps_at 0 ts [] ?a) \<le> length (steps_at 0 ts [] pre)"
    by (simp add: steps_at_append)
  then have l': "length ts \<le> length (steps_at 0 ts [] pre)"
    using l by simp
  have sub: "set (steps_at 0 ts [] pre) \<subseteq> set ts"
    by (auto simp: set_steps_at)
  have "card (set ts) \<le> card (set (steps_at 0 ts [] pre))"
    using l' d distinct_steps_at[of 0 ts "[]" pre] by (simp add: distinct_card)
  then show "set (steps_at 0 ts [] pre) = set ts"
    using sub by (simp add: card_seteq)
qed

text \<open>When every task is scheduled to its end, the waiting loop ends.\<close>

lemma seen_steps_served:
  assumes u: "\<forall>t \<in> set ts. upper t = t" and d: "distinct ts" and sv: "served w ts"
  shows "\<exists>pre. seen_steps w ts (fresh isins) = Some pre"
proof (cases "first_full w ts [] (schedule w ts) (fresh isins)")
  case (Some p)
  then show ?thesis by (simp add: seen_steps_def)
next
  case None
  let ?s = "schedule w ts"
  have "DFS (run_schedule w ts [] ?s (fresh isins)) =
      map (\<lambda>t. (t, fetched_frame w t)) (steps_at 0 ts [] ?s)"
    using DFS_run_schedule[OF u, of "fresh isins" "[]" w ?s] by (simp add: fresh_def)
  then have l: "length (steps_at 0 ts [] ?s) < length ts"
    using first_full_None[OF None] by simp
  have "set (steps_at 0 ts [] ?s) = set ts"
    using sv by (auto simp: set_steps_at served_def)
  then have "length (steps_at 0 ts [] ?s) = length ts"
    using d distinct_steps_at[of 0 ts "[]" ?s] by (metis distinct_card)
  then show ?thesis using l by simp
qed

lemma after_fetch_sync:
  assumes "accept_isins w (ticker_list tickers) [] [] = Inr (isins, resolved)"
    and "\<not> use_threads w cfg"
  shows "after_fetch w cfg tickers =
           Returns (unique_upper w resolved, run_all w (unique_upper w resolved) (fresh isins))"
  using assms by (simp add: after_fetch_def prepare_Inr fetch_all_def)

lemma after_fetch_threaded:
  assumes "accept_isins w (ticker_list tickers) [] [] = Inr (isins, resolved)"
    and "use_threads w cfg"
  shows "after_fetch w cfg tickers =
           (case seen_steps w (unique_upper w resolved) (fresh isins) of
              None \<Rightarrow> Hangs
            | Some pre \<Rightarrow>
                Returns (unique_upper w resolved,
                         run_schedule w (unique_upper w resolved) [] pre (fresh isins)))"
  using assms by (simp add: after_fetch_def prepare_Inr fetch_all_def split: option.splits)

lemma after_fetch_returns:
  assumes so: "enumerates (set_order w)"
    and isin: "accept_isins w (ticker_list tickers) [] [] = Inr (isins, resolved)"
    and sv: "use_threads w cfg \<longrightarrow> served w (unique_upper w resolved)"
  shows "\<exists>sh1. after_fetch w cfg tickers = Returns (unique_upper w resolved, sh1)"
proof (cases "use_threads w cfg")
  case False
  then show ?thesis using after_fetch_sync[OF isin] by simp
next
  case True
  let ?ts = "unique_upper w resolved"
  have u: "\<forall>t \<in> set ?ts. upper t = t"
    using unique_upper_props(3)[OF so, of resolved] by (metis map_eq_conv map_ident)
  obtain pre where "seen_steps w ?ts (fresh isins) = Some pre"
    using seen_steps_served[OF u unique_upper_props(1)[OF so]] sv True by blast
  then show ?thesis
    using after_fetch_threaded[OF isin True] by simp
qed

lemma after_fetch_state:
  assumes so: "enumerates (set_order w)"
    and isin: "accept_isins w (ticker_list tickers) [] [] = Inr (isins, resolved)"
    and ret: "after_fetch w cfg tickers = Returns (ts, sh1)"
  shows "ts = unique_upper w resolved
    \<and> (\<exists>os es tbs. distinct os \<and> set os = set ts \<and> distinct es \<and> set es \<subseteq> set ts
          \<and> distinct tbs \<and> set tbs \<subseteq> set ts
          \<and> (\<not> use_threads w cfg \<longrightarrow> os = ts \<and> es = ts \<and> tbs = ts)
          \<and> DFS sh1 = map (\<lambda>t. (t, fetched_frame w t)) os
          \<and> ERRORS sh1 = map (\<lambda>(k, e). (k, repr e)) (fetch_errors w es)
          \<and> TRACEBACKS sh1 = map (\<lambda>(k, e). (k, format_exc e)) (fetch_errors w tbs)
          \<and> fetched sh1 = os \<and> ISINS sh1 = isins
          \<and> (\<forall>key. count_list (assigned sh1) (DFS_map, key) = count_list os key)
          \<and> (\<forall>key. count_list (assigned sh1) (ERRORS_map, key)
                     = count_list (map fst (fetch_errors w es)) key)
          \<and> (\<forall>key. count_list (assigned sh1) (TRACEBACKS_map, key)
                     = count_list (map fst (fetch_errors w tbs)) key))"
proof (cases "use_threads w cfg")
  case False
  let ?ts = "unique_upper w resolved"
  have e: "ts = ?ts" "sh1 = run_all w ?ts (fresh isins)"
    using after_fetch_sync[OF isin False] ret by simp_all
  have d: "distinct ?ts" and m: "map upper ?ts = ?ts"
    using unique_upper_props[OF so] by auto
  note rf = run_fresh[OF d m, of w isins]
  have c: "\<forall>key. count_list (assigned sh1) (DFS_map, key) = count_list ?ts key"
    using count_writes_run_all(1)[of w ?ts] m by (simp add: e rf(4))
  show ?thesis
    apply (rule conjI[OF e(1)])
    apply (rule exI[of _ ?ts], rule exI[of _ ?ts], rule exI[of _ ?ts])
    using d c False by (simp add: e rf count_writes_run_all)
next
  case True
  let ?ts = "unique_upper w resolved"
  have d: "distinct ?ts" and m: "map upper ?ts = ?ts"
    using unique_upper_props[OF so] by auto
  have u: "\<forall>t \<in> set ?ts. upper t = t"
    using m by (metis map_eq_conv map_ident)
  obtain pre where pre: "seen_steps w ?ts (fresh isins) = Some pre"
    and e: "ts = ?ts" "sh1 = run_schedule w ?ts [] pre (fresh isins)"
    using after_fetch_threaded[OF isin True] ret by (auto split: option.splits)
  let ?os = "steps_at 0 ?ts [] pre"
  let ?es = "steps_at 1 ?ts [] pre"
  let ?tbs = "steps_at 2 ?ts [] pre"
  have s0: "set ?os = set ?ts"
    by (rule seen_steps_full(1)[OF u d pre])
  have s1: "set ?es \<subseteq> set ?ts" and s2: "set ?tbs \<subseteq> set ?ts"
    by (auto simp: set_steps_at)
  have mo: "map upper ?os = ?os"
    using u s0 by (intro map_upper_fixed) simp
  have f1: "DFS sh1 = map (\<lambda>t. (t, fetched_frame w t)) ?os"
    using DFS_run_schedule[OF u, of "fresh isins" "[]" w pre] by (simp add: e fresh_def)
  have f2: "ERRORS sh1 = map (\<lambda>(k, e). (k, repr e)) (fetch_errors w ?es)"
    using ERRORS_run_schedule[OF u, of "fresh isins" "[]" w pre] by (simp add: e fresh_def)
  have f3: "TRACEBACKS sh1 = map (\<lambda>(k, e). (k, format_exc e)) (fetch_errors w ?tbs)"
    using TRACEBACKS_run_schedule[OF u, of "fresh isins" "[]" w pre] by (simp add: e fresh_def)
  have f4: "fetched sh1 = ?os" "ISINS sh1 = isins"
    by (simp_all add: e fetched_run_schedule ISINS_run_schedule fresh_def)
  have c1: "\<forall>key. count_list (assigned sh1) (DFS_map, key) = count_list ?os key"
    by (simp add: e count_DFS_run_schedule mo fresh_def)
  have c2: "\<forall>key. count_list (assigned sh1) (ERRORS_map, key)
                     = count_list (map fst (fetch_errors w ?es)) key"
    by (simp add: e count_ERRORS_run_schedule fresh_def)
  have c3: "\<forall>key. count_list (assigned sh1) (TRACEBACKS_map, key)
                     = count_list (map fst (fetch_errors w ?tbs)) key"
    by (simp add: e count_TRACEBACKS_run_schedule fresh_def)
  show ?thesis
    apply (rule conjI[OF e(1)])
    apply (rule exI[of _ ?os], rule exI[of _ ?es], rule exI[of _ ?tbs])
    using True s0 s1 s2 f1 f2 f3 f4 c1 c2 c3 distinct_steps_at e(1) by simp
qed

subsection \<open>The concatenation and the realignment return\<close>

lemma concat_columns_unique:
  assumes "kfs \<noteq> []" and "\<forall>(k, f) \<in> set kfs. is_unique (index f)"
    and "one_kind (concat (map (\<lambda>(k, f). index f) kfs))"
  shows "\<exists>t. concat_columns w kfs = Inr t"
proof -
  have r: "regular (map (\<lambda>(k, f). index f) kfs)"
    using assms(2,3) by (auto simp: regular_def list_all_iff)
  have "\<not> list_ex (\<lambda>(k, f). index f \<noteq> c \<and> \<not> is_unique (index f)) kfs" for c
    using assms(2) by (auto simp: list_ex_iff)
  then show ?thesis
    using assms(1) r by (simp add: concat_columns_def union_index_def)
qed

lemma index_take_rows [simp]: "index (take_rows ls ix f) = ls"
  by (simp add: take_rows_def)

lemma keys_take_rows [simp]: "map fst (columns (take_rows ls ix f)) = map fst (columns f)"
  by (simp add: take_rows_def comp_def case_prod_unfold)

lemma index_select_rows [simp]: "index (select_rows ps f) = map (\<lambda>p. index f ! p) ps"
  by (simp add: select_rows_def)

lemma keys_select_rows [simp]: "map fst (columns (select_rows ps f)) = map fst (columns f)"
  by (simp add: select_rows_def)

lemma last_occurrences_bound: "p \<in> set (last_occurrences xs) \<Longrightarrow> p < length xs"
  by (simp add: last_occurrences_def)

lemma distinct_last_occurrences: "distinct (map (\<lambda>p. xs ! p) (last_occurrences xs))"
proof -
  have "inj_on (\<lambda>p. xs ! p) (set (last_occurrences xs))"
  proof (rule inj_onI)
    fix i j
    assume i: "i \<in> set (last_occurrences xs)" and j: "j \<in> set (last_occurrences xs)"
      and e: "xs ! i = xs ! j"
    have il: "i < length xs" and jl: "j < length xs"
      using i j by (simp_all add: last_occurrences_def)
    have ni: "xs ! i \<notin> set (drop (Suc i) xs)" and nj: "xs ! j \<notin> set (drop (Suc j) xs)"
      using i j by (simp_all add: last_occurrences_def)
    show "i = j"
    proof (rule ccontr)
      assume "i \<noteq> j"
      then consider "i < j" | "j < i" by linarith
      then show False
      proof cases
        case 1
        then have "xs ! j = drop (Suc i) xs ! (j - Suc i)" using jl by simp
        moreover have "j - Suc i < length (drop (Suc i) xs)" using 1 jl by simp
        ultimately have "xs ! j \<in> set (drop (Suc i) xs)" by (metis nth_mem)
        then show False using ni e by simp
      next
        case 2
        then have "xs ! i = drop (Suc j) xs ! (i - Suc j)" using il by simp
        moreover have "i - Suc j < length (drop (Suc j) xs)" using 2 il by simp
        ultimately have "xs ! i \<in> set (drop (Suc j) xs)" by (metis nth_mem)
        then show False using nj e by simp
      qed
    qed
  qed
  moreover have "distinct (last_occurrences xs)"
    by (simp add: last_occurrences_def)
  ultimately show ?thesis
    by (simp add: distinct_map)
qed

lemma drop_duplicated_index_unique: "is_unique (index (drop_duplicated_index f))"
proof -
  let ?ps = "last_occurrences (map canon (index f))"
  have "map canon (index (drop_duplicated_index f)) = map (canon \<circ> (\<lambda>p. index f ! p)) ?ps"
    by (simp add: drop_duplicated_index_def)
  also have "\<dots> = map (\<lambda>p. map canon (index f) ! p) ?ps"
    by (rule map_cong[OF refl]) (use last_occurrences_bound[of _ "map canon (index f)"] in auto)
  finally show ?thesis
    unfolding is_unique_def
    using distinct_last_occurrences[of "map canon (index f)"] by (simp only:)
qed

lemma keys_drop_duplicated_index [simp]:
  "map fst (columns (drop_duplicated_index f)) = map fst (columns f)"
  by (simp add: drop_duplicated_index_def)

lemma keys_dropna [simp]: "map fst (columns (dropna f)) = map fst (columns f)"
  by (simp add: dropna_def)

lemma keys_drop_duplicates [simp]: "map fst (columns (drop_duplicates f)) = map fst (columns f)"
  by (simp add: drop_duplicates_def)

lemma keys_empty_df: "map fst (columns (empty_df idx)) = map (\<lambda>c. [c]) price_columns"
  by (simp add: empty_df_def Let_def comp_def)

lemma distinct_keys_empty_df: "distinct (map fst (columns (empty_df idx)))"
  by (simp add: keys_empty_df price_columns_def)

lemma concat_rows_distinct:
  assumes "distinct (map fst (columns a))" and "distinct (map fst (columns b))"
  shows "\<exists>d. concat_rows a b = Inr d"
  using assms by (simp add: concat_rows_def Let_def)

lemma realign_one_ok:
  assumes "distinct (map fst (columns df))"
  shows "\<exists>d. realign_one idx df = Inr d \<and> is_unique (index d)"
proof (cases "DataFrame idx df")
  case (Inr d0)
  then show ?thesis
    by (simp add: realign_one_def drop_duplicated_index_unique)
next
  case (Inl e)
  obtain d where "concat_rows (empty_df idx) (dropna df) = Inr d"
    using concat_rows_distinct[OF distinct_keys_empty_df, of "dropna df" idx] assms by auto
  then show ?thesis
    using Inl by (simp add: realign_one_def drop_duplicated_index_unique)
qed

lemma realign_entries_ok:
  assumes "\<forall>(k, f) \<in> set dfs. distinct (map fst (columns f))"
  shows "\<exists>dfs'. realign_entries idx dfs = Inr dfs' \<and> map fst dfs' = map fst dfs
           \<and> (\<forall>(k, f) \<in> set dfs'. is_unique (index f))"
  using assms
proof (induction dfs)
  case Nil
  then show ?case by simp
next
  case (Cons kf dfs)
  obtain key df where kf: "kf = (key, df)" by (cases kf)
  obtain d where d: "realign_one idx df = Inr d" "is_unique (index d)"
    using realign_one_ok[of df idx] Cons.prems kf by auto
  obtain dfs' where r: "realign_entries idx dfs = Inr dfs'" "map fst dfs' = map fst dfs"
      "\<forall>(k, f) \<in> set dfs'. is_unique (index f)"
    using Cons by auto
  show ?case
    using kf d r by simp
qed

lemma labels_select_rows:
  "\<forall>p \<in> set ps. p < nrows f \<Longrightarrow> set (index (select_rows ps f)) \<subseteq> set (index f)"
  by (auto simp: select_rows_def nrows_def)

lemma first_occurrences_bound: "p \<in> set (first_occurrences xs) \<Longrightarrow> p < length xs"
  by (simp add: first_occurrences_def)

lemma labels_drop_duplicates: "set (index (drop_duplicates f)) \<subseteq> set (index f)"
  using first_occurrences_bound[of _ "map (row_of f) [0..<nrows f]"]
    labels_select_rows[of "first_occurrences (map (row_of f) [0..<nrows f])" f]
  by (auto simp: drop_duplicates_def)

lemma labels_dropna: "set (index (dropna f)) \<subseteq> set (index f)"
  using labels_select_rows[of "filter (\<lambda>i. NaN \<notin> set (row_of f i)) [0..<nrows f]" f]
  by (auto simp: dropna_def)

lemma labels_drop_duplicated_index: "set (index (drop_duplicated_index f)) \<subseteq> set (index f)"
  using last_occurrences_bound[of _ "map canon (index f)"]
    labels_select_rows[of "last_occurrences (map canon (index f))" f]
  by (auto simp: drop_duplicated_index_def nrows_def)

lemma index_empty_df: "index (empty_df idx) = (case idx of None \<Rightarrow> [] | Some ls \<Rightarrow> ls)"
  by (simp add: empty_df_def Let_def split: option.splits)

lemma index_concat_rows: "concat_rows a b = Inr h \<Longrightarrow> index h = index a @ index b"
  by (auto simp: concat_rows_def Let_def split: if_splits)

lemma realign_one_labels:
  assumes "realign_one idx f = Inr g"
  shows "set (index g) \<subseteq> (case idx of None \<Rightarrow> {} | Some ls \<Rightarrow> set ls) \<union> set (index f)"
proof (cases "DataFrame idx f")
  case (Inr d)
  then have g: "g = drop_duplicated_index (drop_duplicates d)"
    using assms by (simp add: realign_one_def)
  have "set (index d) \<subseteq> (case idx of None \<Rightarrow> {} | Some ls \<Rightarrow> set ls) \<union> set (index f)"
    using Inr by (auto simp: DataFrame_def split: option.splits if_splits)
  then show ?thesis
    unfolding g
    using labels_drop_duplicates[of d] labels_drop_duplicated_index[of "drop_duplicates d"]
    by blast
next
  case (Inl e)
  then obtain h where h: "concat_rows (empty_df idx) (dropna f) = Inr h"
    and g: "g = drop_duplicated_index h"
    using assms by (auto simp: realign_one_def split: sum.splits)
  have "set (index h) \<subseteq> (case idx of None \<Rightarrow> {} | Some ls \<Rightarrow> set ls) \<union> set (index f)"
    using labels_dropna[of f]
    by (auto simp: index_concat_rows[OF h] index_empty_df split: option.splits)
  then show ?thesis
    unfolding g using labels_drop_duplicated_index[of h] by blast
qed

lemma realign_entries_labels:
  assumes "realign_entries idx dfs = Inr dfs'"
  shows "\<forall>(k, g) \<in> set dfs'. set (index g)
           \<subseteq> (case idx of None \<Rightarrow> {} | Some ls \<Rightarrow> set ls) \<union> (\<Union>(k, f) \<in> set dfs. set (index f))"
  using assms
proof (induction dfs arbitrary: dfs')
  case Nil
  then show ?case by simp
next
  case (Cons kf dfs)
  obtain k f where kf: "kf = (k, f)" by (cases kf)
  obtain g rest where g: "realign_one idx f = Inr g" and rest: "realign_entries idx dfs = Inr rest"
    and d: "dfs' = (k, g) # rest"
    using Cons.prems kf by (auto split: sum.splits)
  show ?case
    using Cons.IH[OF rest] realign_one_labels[OF g] kf d by auto
qed

lemma longest_index_acc:
  "longest_index dfs n acc = r \<Longrightarrow>
     (r = acc \<and> (\<forall>f \<in> set dfs. nrows f \<le> n))
     \<or> (\<exists>f \<in> set dfs. r = Some (index f) \<and> n < nrows f \<and> (\<forall>f' \<in> set dfs. nrows f' \<le> nrows f))"
proof (induction dfs arbitrary: n acc)
  case Nil
  then show ?case by simp
next
  case (Cons df dfs)
  show ?case
  proof (cases "nrows df > n")
    case True
    then have "longest_index dfs (nrows df) (Some (index df)) = r"
      using Cons.prems by simp
    from Cons.IH[OF this] True show ?thesis
      by (elim disjE) (auto intro: le_less_trans less_imp_le)
  next
    case False
    then have "longest_index dfs n acc = r"
      using Cons.prems by simp
    from Cons.IH[OF this] False show ?thesis
      by (elim disjE) (auto simp: not_less intro: order_trans less_imp_le)
  qed
qed

lemma longest_index_Some:
  assumes "longest_index dfs 0 None = Some ls"
  shows "\<exists>f \<in> set dfs. ls = index f"
  using longest_index_acc[OF assms] by auto

text \<open>After the realignment the row labels are labels that were there before.\<close>

lemma realign_dfs_labels:
  assumes "realign_dfs sh = Inr sh'"
  shows "map fst (DFS sh') = map fst (DFS sh)"
    and "\<forall>(k, g) \<in> set (DFS sh'). is_unique (index g)"
    and "(\<Union>(k, g) \<in> set (DFS sh'). set (index g)) \<subseteq> (\<Union>(k, f) \<in> set (DFS sh). set (index f))"
proof -
  let ?idx = "longest_index (map snd (DFS sh)) 0 None"
  have r: "realign_entries ?idx (DFS sh) = Inr (DFS sh')"
    using assms by (auto simp: realign_dfs_def Let_def split: sum.splits)
  have keys: "realign_entries idx dfs = Inr dfs' \<Longrightarrow>
      map fst dfs' = map fst dfs \<and> (\<forall>(k, g) \<in> set dfs'. is_unique (index g))" for idx dfs dfs'
  proof (induction dfs arbitrary: dfs')
    case Nil
    then show ?case by simp
  next
    case (Cons kf dfs)
    obtain k f where kf: "kf = (k, f)" by (cases kf)
    obtain g rest where g: "realign_one idx f = Inr g"
      and rest: "realign_entries idx dfs = Inr rest" and d: "dfs' = (k, g) # rest"
      using Cons.prems kf by (auto split: sum.splits)
    have "is_unique (index g)"
      using g by (auto simp: realign_one_def drop_duplicated_index_unique split: sum.splits)
    then show ?case
      using Cons.IH[OF rest] kf d by simp
  qed
  show "map fst (DFS sh') = map fst (DFS sh)"
    and "\<forall>(k, g) \<in> set (DFS sh'). is_unique (index g)"
    using keys[OF r] by simp_all
  have "(case ?idx of None \<Rightarrow> {} | Some ls \<Rightarrow> set ls) \<subseteq> (\<Union>(k, f) \<in> set (DFS sh). set (index f))"
  proof (cases ?idx)
    case None
    then show ?thesis by simp
  next
    case (Some ls)
    then obtain f where "f \<in> set (map snd (DFS sh))" "ls = index f"
      using longest_index_Some by blast
    then show ?thesis
      using Some by force
  qed
  then show "(\<Union>(k, g) \<in> set (DFS sh'). set (index g))
        \<subseteq> (\<Union>(k, f) \<in> set (DFS sh). set (index f))"
    using realign_entries_labels[OF r] by blast
qed

lemma one_kind_labels:
  "(\<forall>l \<in> set ls. is_wall l) \<or> (\<forall>l \<in> set ls. \<not> is_wall l) \<Longrightarrow> one_kind ls"
  by (auto simp: one_kind_def list_all_iff)

lemma reconcile_ok:
  assumes "DFS sh \<noteq> []" and "\<forall>(k, f) \<in> set (DFS sh). distinct (map fst (columns f))"
    and "(\<forall>(k, f) \<in> set (DFS sh). \<forall>l \<in> set (index f). is_wall l)
         \<or> (\<forall>(k, f) \<in> set (DFS sh). \<forall>l \<in> set (index f). \<not> is_wall l)"
  shows "\<exists>data sh'. reconcile w sh = Inr (data, sh')"
proof (cases "concat_columns w (DFS sh)")
  case (Inr data)
  then show ?thesis by (simp add: reconcile_def)
next
  case (Inl e)
  obtain dfs' where r: "realign_entries (longest_index (map snd (DFS sh)) 0 None) (DFS sh) = Inr dfs'"
    using realign_entries_ok[OF assms(2)] by blast
  let ?sh' = "sh\<lparr>DFS := dfs',
                  assigned := assigned sh @
                    concat (map (\<lambda>(key, df). [(DFS_map, key), (DFS_map, key)]) (DFS sh))\<rparr>"
  have rd: "realign_dfs sh = Inr ?sh'"
    using r by (simp add: realign_dfs_def Let_def)
  note rl = realign_dfs_labels[OF rd]
  have ne: "DFS ?sh' \<noteq> []"
    using rl(1) assms(1) by auto
  have "(\<forall>l \<in> (\<Union>(k, g) \<in> set (DFS ?sh'). set (index g)). is_wall l)
      \<or> (\<forall>l \<in> (\<Union>(k, g) \<in> set (DFS ?sh'). set (index g)). \<not> is_wall l)"
    using assms(3) rl(3) by (elim disjE) blast+
  then have "(\<forall>l \<in> set (concat (map (\<lambda>(k, f). index f) (DFS ?sh'))). is_wall l)
      \<or> (\<forall>l \<in> set (concat (map (\<lambda>(k, f). index f) (DFS ?sh'))). \<not> is_wall l)"
    by (elim disjE) auto
  then have "one_kind (concat (map (\<lambda>(k, f). index f) (DFS ?sh')))"
    by (rule one_kind_labels)
  then obtain t where "concat_columns w (DFS ?sh') = Inr t"
    using concat_columns_unique[OF ne rl(2)] by blast
  then show ?thesis
    using Inl rd by (simp add: reconcile_def)
qed

lemma keys_strip_tz: "map fst (strip_tz dfs) = map fst dfs"
  by (induction dfs) (auto simp: strip_tz_def)

lemma columns_strip_tz:
  "(k, f) \<in> set (strip_tz dfs) \<Longrightarrow> \<exists>f'. (k, f') \<in> set dfs \<and> columns f = columns f'"
  by (auto simp: strip_tz_def split: if_splits)

lemma upper_samples:
  "upper ''aapl'' = ''AAPL''" "upper ''AAPL'' = ''AAPL''" "upper ''msft'' = ''MSFT''"
  "upper ''MSFT'' = ''MSFT''" "upper ''Msft'' = ''MSFT''" "upper ''zzz'' = ''ZZZ''"
  "upper ''ZZZ'' = ''ZZZ''"
  by code_simp+

subsection \<open>The table that is returned\<close>



lemma keys_align_rows [simp]: "map fst (columns (align_rows ls f)) = map fst (columns f)"
  by (simp add: align_rows_def)

lemma concat_columns_Inr:
  assumes "concat_columns w kfs = Inr t"
  shows "names t = [''Ticker'', ''Price'']"
    and "union_index w (map (\<lambda>(k, f). index f) kfs) = Inr (index t)"
    and "columns t = concat (map (\<lambda>(k, f).
            map (\<lambda>(c, cs). (k # c, cs)) (columns (align_rows (index t) f))) kfs)"
    and "kfs \<noteq> []"
  using assms by (auto simp: concat_columns_def split: if_splits sum.splits)

lemma keys_under_ticker:
  "map fst (map (\<lambda>(c, cs). (k # c, cs)) xs) = map ((#) k) (map fst xs)"
  by (induction xs) auto

lemma concat_columns_key_list:
  assumes "concat_columns w kfs = Inr t"
  shows "map fst (columns t) = concat (map (\<lambda>(k, f). map ((#) k) (map fst (columns f))) kfs)"
proof -
  have "map fst (concat (map (\<lambda>(k, f).
            map (\<lambda>(c, cs). (k # c, cs)) (columns (align_rows ls f))) kfs))
      = concat (map (\<lambda>(k, f). map ((#) k) (map fst (columns f))) kfs)" for ls
  proof (induction kfs)
    case Nil
    then show ?case by simp
  next
    case (Cons kf kfs)
    obtain k f where kf: "kf = (k, f)" by (cases kf)
    show ?case
      using Cons keys_under_ticker[of k "columns (align_rows ls f)"]
      by (simp add: kf del: map_map)
  qed
  then show ?thesis
    using concat_columns_Inr(3)[OF assms] by simp
qed

lemma concat_columns_keys:
  assumes "concat_columns w kfs = Inr t"
  shows "set (map fst (columns t)) =
           {ticker # c | ticker f c. (ticker, f) \<in> set kfs \<and> c \<in> set (map fst (columns f))}"
  unfolding concat_columns_key_list[OF assms] by force

lemma reconcile_Inr:
  assumes "reconcile w sh2 = Inr (data, sh3)"
  shows "concat_columns w (DFS sh3) = Inr data" and "ISINS sh3 = ISINS sh2"
    and "ERRORS sh3 = ERRORS sh2" and "TRACEBACKS sh3 = TRACEBACKS sh2"
    and "fetched sh3 = fetched sh2"
  using assms
  by (auto simp: reconcile_def realign_dfs_def Let_def split: sum.splits)

lemma index_finish: "index (finish cfg n isins data) = map to_datetime_utc (index data)"
  by (simp add: finish_def Let_def rename_columns_def swaplevel_def sort_columns_def droplevel_def)

lemma names_finish:
  "names (finish cfg n isins data) =
     (if \<not> multi_level_index cfg \<and> n = 1 then []
      else if group_by cfg = ''column'' then swap01 (names data) else names data)"
  by (simp add: finish_def Let_def rename_columns_def swaplevel_def sort_columns_def droplevel_def)

lemma keys_finish:
  "set (map fst (columns (finish cfg n isins data))) = final_key cfg n isins ` set (map fst (columns data))"
  by (force simp add: finish_def final_key_def Let_def rename_columns_def swaplevel_def
        sort_columns_def droplevel_def image_iff case_prod_unfold)

lemma is_utc_to_datetime_utc [simp]: "is_utc (to_datetime_utc l)"
  by (cases l) auto

subsection \<open>The assignments to the shared maps\<close>

lemma reconcile_assigned:
  assumes "reconcile w sh2 = Inr (data, sh3)"
  shows "assigned sh3 = assigned sh2 @
           (if isl (concat_columns w (DFS sh2))
            then concat (map (\<lambda>key. [(DFS_map, key), (DFS_map, key)]) (map fst (DFS sh2)))
            else [])"
  using assms
  by (auto simp: reconcile_def realign_dfs_def Let_def comp_def case_prod_unfold split: sum.splits)


lemma download_Returns_prepared:
  assumes "download w cfg tickers = Returns (tbl, sh)"
  shows "\<exists>isins resolved. accept_isins w (ticker_list tickers) [] [] = Inr (isins, resolved)"
proof (cases "accept_isins w (ticker_list tickers) [] []")
  case (Inl e)
  then have "download w cfg tickers = Raises e"
    by (simp add: download_def before_concat_def after_fetch_def prepare_def)
  then show ?thesis using assms by simp
next
  case (Inr p)
  then show ?thesis by (cases p) auto
qed

lemma before_concat_Returns:
  assumes "before_concat w cfg tickers = Returns (ts, sh2)"
  shows "\<exists>sh1. after_fetch w cfg tickers = Returns (ts, sh1)
           \<and> sh2 = (if resolve_ignore_tz (ignore_tz cfg) (interval cfg)
                     then sh1\<lparr>DFS := strip_tz (DFS sh1)\<rparr> else sh1)"
  using assms by (cases "after_fetch w cfg tickers") (auto simp: before_concat_def)

lemma download_Returns:
  assumes "download w cfg tickers = Returns (tbl, sh)"
  shows "\<exists>ts sh2 data. before_concat w cfg tickers = Returns (ts, sh2)
           \<and> reconcile w sh2 = Inr (data, sh)
           \<and> tbl = finish cfg (length ts) (ISINS sh) data"
  using assms
  by (cases "before_concat w cfg tickers") (auto simp: download_def split: sum.splits)

lemma distinct_count: "distinct xs \<Longrightarrow> count_list xs k = (if k \<in> set xs then 1 else 0)"
  by (induction xs) auto

lemma fetch_counts:
  assumes so: "enumerates (set_order w)"
    and isin: "accept_isins w (ticker_list tickers) [] [] = Inr (isins, resolved)"
    and a: "after_fetch w cfg tickers = Returns (ts, sh1)"
  shows "distinct ts"
    and "\<forall>key \<in> set ts.
           count_list (assigned sh1) (DFS_map, key) = 1
           \<and> count_list (assigned sh1) (ERRORS_map, key) \<le> 1
           \<and> count_list (assigned sh1) (TRACEBACKS_map, key) \<le> 1"
    and "\<forall>m key. key \<notin> set ts \<longrightarrow> count_list (assigned sh1) (m, key) = 0"
proof -
  from after_fetch_state[OF so isin a] obtain os es tbs where
    t: "ts = unique_upper w resolved"
    and os: "distinct os" "set os = set ts"
    and es: "distinct es" "set es \<subseteq> set ts"
    and tbs: "distinct tbs" "set tbs \<subseteq> set ts"
    and c1: "\<forall>key. count_list (assigned sh1) (DFS_map, key) = count_list os key"
    and c2: "\<forall>key. count_list (assigned sh1) (ERRORS_map, key)
                     = count_list (map fst (fetch_errors w es)) key"
    and c3: "\<forall>key. count_list (assigned sh1) (TRACEBACKS_map, key)
                     = count_list (map fst (fetch_errors w tbs)) key"
    by blast
  show d: "distinct ts"
    unfolding t by (rule unique_upper_props(1)[OF so])
  have u: "\<forall>t \<in> set ts. upper t = t"
    unfolding t using unique_upper_props(3)[OF so, of resolved] by (metis map_eq_conv map_ident)
  have k: "fst ` set (fetch_errors w xs) \<subseteq> set ts" if "set xs \<subseteq> set ts" for xs
  proof -
    have "upper ` set xs \<subseteq> set ts" using that u by auto
    then show ?thesis using fetch_errors_keys[of w xs] by blast
  qed
  have dk: "distinct (map fst (fetch_errors w xs))" if "distinct xs" "set xs \<subseteq> set ts" for xs
    using that u by (intro distinct_fetch_errors) auto
  have le: "count_list (map fst (fetch_errors w xs)) key \<le> 1"
    if "distinct xs" "set xs \<subseteq> set ts" for xs key
    using dk[OF that] by (simp add: distinct_count)
  have z: "count_list (map fst (fetch_errors w xs)) key = 0"
    if "set xs \<subseteq> set ts" "key \<notin> set ts" for xs key
    using k[OF that(1)] that(2) by (auto simp: count_list_0_iff)
  show "\<forall>key \<in> set ts.
           count_list (assigned sh1) (DFS_map, key) = 1
           \<and> count_list (assigned sh1) (ERRORS_map, key) \<le> 1
           \<and> count_list (assigned sh1) (TRACEBACKS_map, key) \<le> 1"
    using c1 c2 c3 os le[OF es] le[OF tbs] by (simp add: distinct_count)
  show "\<forall>m key. key \<notin> set ts \<longrightarrow> count_list (assigned sh1) (m, key) = 0"
  proof (intro allI impI)
    fix m key
    assume n: "key \<notin> set ts"
    show "count_list (assigned sh1) (m, key) = 0"
      using c1 c2 c3 os n z[OF es(2) n] z[OF tbs(2) n]
      by (cases m) (simp_all add: distinct_count)
  qed
qed

subsection \<open>Rows and cells through the realignment\<close>

lemma nrows_take_rows [simp]: "nrows (take_rows ls ix f) = length ls"
  by (simp add: nrows_def)

lemma map_of_map_snd:
  "map_of (map (\<lambda>(k, v). (k, h v)) xs) c = map_option h (map_of xs c)"
  by (induction xs) auto

lemma map_of_take_rows:
  "map_of (columns (take_rows ls ix f)) c = map_option (take_cells ix) (map_of (columns f) c)"
  by (simp add: take_rows_def map_of_map_snd)

lemma cell_take_rows:
  assumes "r < length ix"
  shows "cell (take_rows ls ix f) c r = (case ix ! r of None \<Rightarrow> NaN | Some j \<Rightarrow> cell f c j)"
  using assms
  by (auto simp: cell_def map_of_take_rows take_cells_def cell_at_def split: option.splits)

lemma exact_rows_refl: "exact_rows f f"
  by (auto simp: exact_rows_def)

lemma exact_rows_trans:
  assumes "exact_rows f d" and "exact_rows d h"
  shows "exact_rows f h"
  unfolding exact_rows_def
proof (intro allI impI)
  fix r
  assume r: "r < nrows h"
  from assms(2) r consider "\<forall>c. cell h c r = NaN"
    | j where "j < nrows d" "canon (index d ! j) = canon (index h ! r)" "\<forall>c. cell h c r = cell d c j"
    unfolding exact_rows_def by blast
  then show "(\<forall>c. cell h c r = NaN)
        \<or> (\<exists>j < nrows f. canon (index f ! j) = canon (index h ! r) \<and> (\<forall>c. cell h c r = cell f c j))"
  proof cases
    case 1
    then show ?thesis by simp
  next
    case 2
    from assms(1) 2(1) consider "\<forall>c. cell d c j = NaN"
      | j' where "j' < nrows f" "canon (index f ! j') = canon (index d ! j)" "\<forall>c. cell d c j = cell f c j'"
      unfolding exact_rows_def by blast
    then show ?thesis
    proof cases
      case 1
      then show ?thesis using 2(3) by simp
    next
      case 2
      then show ?thesis using \<open>canon (index d ! j) = canon (index h ! r)\<close> \<open>\<forall>c. cell h c r = cell d c j\<close>
        by auto
    qed
  qed
qed

lemma exact_rows_select:
  assumes "\<forall>p \<in> set ps. p < nrows f"
  shows "exact_rows f (select_rows ps f)"
  unfolding exact_rows_def
proof (intro allI impI)
  fix r
  assume "r < nrows (select_rows ps f)"
  then have r: "r < length ps" by (simp add: select_rows_def)
  then have p: "ps ! r < nrows f" using assms by simp
  have "\<forall>c. cell (select_rows ps f) c r = cell f c (ps ! r)"
    using r by (simp add: select_rows_def cell_take_rows)
  moreover have "index (select_rows ps f) ! r = index f ! (ps ! r)"
    using r by (simp add: select_rows_def)
  ultimately show "(\<forall>c. cell (select_rows ps f) c r = NaN)
        \<or> (\<exists>j < nrows f. canon (index f ! j) = canon (index (select_rows ps f) ! r)
              \<and> (\<forall>c. cell (select_rows ps f) c r = cell f c j))"
    using p by auto
qed

lemma position_Some:
  "position t ls = Some j \<Longrightarrow> j < length ls \<and> canon (ls ! j) = canon t"
  by (induction ls arbitrary: j) (auto split: if_splits)

lemma exact_rows_reindex:
  "exact_rows f (take_rows ls (get_indexer (index f) ls) f)"
  unfolding exact_rows_def
proof (intro allI impI)
  fix r
  let ?g = "take_rows ls (get_indexer (index f) ls) f"
  assume "r < nrows ?g"
  then have r: "r < length ls" by simp
  then have c: "\<And>c. cell ?g c r = (case position (ls ! r) (index f) of None \<Rightarrow> NaN | Some j \<Rightarrow> cell f c j)"
    by (simp add: cell_take_rows get_indexer_def)
  show "(\<forall>c. cell ?g c r = NaN)
        \<or> (\<exists>j < nrows f. canon (index f ! j) = canon (index ?g ! r) \<and> (\<forall>c. cell ?g c r = cell f c j))"
  proof (cases "position (ls ! r) (index f)")
    case None
    then show ?thesis using c by simp
  next
    case (Some j)
    then show ?thesis
      using c position_Some[OF Some] by (auto simp: nrows_def)
  qed
qed

lemma exact_rows_drop_duplicates: "exact_rows f (drop_duplicates f)"
  using first_occurrences_bound[of _ "map (row_of f) [0..<nrows f]"]
  by (auto simp: drop_duplicates_def exact_rows_refl intro!: exact_rows_select)

lemma exact_rows_dropna: "exact_rows f (dropna f)"
  by (auto simp: dropna_def intro!: exact_rows_select)

lemma exact_rows_drop_duplicated_index: "exact_rows f (drop_duplicated_index f)"
  using last_occurrences_bound[of _ "map canon (index f)"]
  by (auto simp: drop_duplicated_index_def nrows_def intro!: exact_rows_select)


lemma cell_empty_df: "cell (empty_df idx) c r = NaN"
proof (cases "map_of (columns (empty_df idx)) c")
  case None
  then show ?thesis by (simp add: cell_def)
next
  case (Some cs)
  then have "(c, cs) \<in> set (columns (empty_df idx))" by (rule map_of_SomeD)
  then have "set cs \<subseteq> {NaN}" by (auto simp: empty_df_def Let_def)
  then have "r < length cs \<Longrightarrow> cs ! r = NaN"
    using nth_mem[of r cs] by blast
  then show ?thesis using Some by (auto simp: cell_def cell_at_def)
qed

lemma nrows_empty_df: "nrows (empty_df idx) = (case idx of None \<Rightarrow> 0 | Some ls \<Rightarrow> length ls)"
  by (simp add: empty_df_def nrows_def Let_def split: option.splits)

lemma length_empty_df_column:
  "(c, cs) \<in> set (columns (empty_df idx)) \<Longrightarrow> length cs = nrows (empty_df idx)"
  by (auto simp: empty_df_def nrows_def Let_def)

lemma map_of_zip_append:
  assumes "map fst xs = map fst ys"
  shows "map_of (map (\<lambda>((k, cs), (k', cs')). (k, cs @ cs')) (zip xs ys)) c =
           (case map_of xs c of None \<Rightarrow> None
            | Some cs \<Rightarrow> (case map_of ys c of None \<Rightarrow> None | Some cs' \<Rightarrow> Some (cs @ cs')))"
  using assms
proof (induction xs arbitrary: ys)
  case Nil
  then show ?case by simp
next
  case (Cons x xs)
  then obtain y ys' where ys: "ys = y # ys'" by (cases ys) auto
  then have "fst x = fst y" "map fst xs = map fst ys'" using Cons.prems by auto
  then show ?case
    using Cons.IH[of ys'] ys by (cases x; cases y) (auto split: option.splits)
qed

lemma column_or_missing_nth:
  "i < nrows f \<Longrightarrow> column_or_missing f c ! i = cell f c i"
  by (auto simp: column_or_missing_def cell_def split: option.splits)

lemma length_column_or_missing [simp]: "length (column_or_missing f c) = nrows f"
  by (auto simp: column_or_missing_def split: option.splits)

lemma cell_concat_rows:
  assumes "concat_rows a b = Inr h"
    and "\<forall>(c, cs) \<in> set (columns a). length cs = nrows a"
  shows "index h = index a @ index b"
    and "r < nrows a \<Longrightarrow> cell h c r = cell a c r"
    and "nrows a \<le> r \<Longrightarrow> r < nrows a + nrows b
          \<Longrightarrow> cell h c r = cell b c (r - nrows a)"
proof -
  show "index h = index a @ index b"
    using assms(1) by (auto simp: concat_rows_def Let_def split: if_splits)
  show "cell h c r = cell a c r" if r: "r < nrows a"
  proof (cases "map fst (columns a) = map fst (columns b)")
    case True
    then have h: "columns h = map (\<lambda>((k, cs), (k', cs')). (k, cs @ cs')) (zip (columns a) (columns b))"
      using assms(1) by (auto simp: concat_rows_def Let_def)
    show ?thesis
    proof (cases "map_of (columns a) c")
      case None
      then show ?thesis by (simp add: cell_def h map_of_zip_append[OF True])
    next
      case (Some cs)
      then have l: "length cs = nrows a"
        using assms(2) map_of_SomeD by fastforce
      have "c \<in> set (map fst (columns b))"
        using Some True by (metis domI dom_map_of_conv_image_fst set_map)
      then obtain cs' where "map_of (columns b) c = Some cs'"
        by (metis domD dom_map_of_conv_image_fst set_map)
      then show ?thesis
        using Some l r by (simp add: cell_def h map_of_zip_append[OF True] cell_at_def nth_append)
    qed
  next
    case False
    let ?keys = "sort (remdups (map fst (columns a) @ map fst (columns b)))"
    have h: "columns h = map (\<lambda>k. (k, column_or_missing a k @ column_or_missing b k)) ?keys"
      using assms(1) False by (auto simp: concat_rows_def Let_def split: if_splits)
    show ?thesis
    proof (cases "c \<in> set ?keys")
      case True
      then show ?thesis
        using r by (simp add: cell_def h map_of_tabulate cell_at_def nth_append column_or_missing_nth
            del: set_sort set_remdups)
    next
      case False
      then have "map_of (columns a) c = None"
        by (auto simp: map_of_eq_None_iff)
      then show ?thesis
        using False by (simp add: cell_def h map_of_tabulate)
    qed
  qed
  show "cell h c r = cell b c (r - nrows a)"
    if r: "nrows a \<le> r" "r < nrows a + nrows b"
  proof (cases "map fst (columns a) = map fst (columns b)")
    case True
    then have h: "columns h = map (\<lambda>((k, cs), (k', cs')). (k, cs @ cs')) (zip (columns a) (columns b))"
      using assms(1) by (auto simp: concat_rows_def Let_def)
    show ?thesis
    proof (cases "map_of (columns a) c")
      case None
      then have "c \<notin> fst ` set (columns a)" by (simp add: map_of_eq_None_iff)
      then have "c \<notin> fst ` set (columns b)" using True by (metis set_map)
      then have "map_of (columns b) c = None" by (simp add: map_of_eq_None_iff)
      then show ?thesis using None by (simp add: cell_def h map_of_zip_append[OF True])
    next
      case (Some cs)
      then have l: "length cs = nrows a"
        using assms(2) map_of_SomeD by fastforce
      have "c \<in> set (map fst (columns b))"
        using Some True by (metis domI dom_map_of_conv_image_fst set_map)
      then obtain cs' where "map_of (columns b) c = Some cs'"
        by (metis domD dom_map_of_conv_image_fst set_map)
      then show ?thesis
        using Some l r by (auto simp: cell_def h map_of_zip_append[OF True] cell_at_def nth_append)
    qed
  next
    case False
    let ?keys = "sort (remdups (map fst (columns a) @ map fst (columns b)))"
    have h: "columns h = map (\<lambda>k. (k, column_or_missing a k @ column_or_missing b k)) ?keys"
      using assms(1) False by (auto simp: concat_rows_def Let_def split: if_splits)
    show ?thesis
    proof (cases "c \<in> set ?keys")
      case True
      then show ?thesis
        using r by (simp add: cell_def h map_of_tabulate cell_at_def nth_append column_or_missing_nth
            del: set_sort set_remdups)
    next
      case False
      then have "map_of (columns b) c = None"
        by (auto simp: map_of_eq_None_iff)
      then show ?thesis
        using False by (simp add: cell_def h map_of_tabulate)
    qed
  qed
qed


lemma exact_rows_concat_placeholder:
  assumes "concat_rows (empty_df idx) b = Inr h"
  shows "exact_rows b h"
  unfolding exact_rows_def
proof (intro allI impI)
  fix r
  let ?a = "empty_df idx"
  have wf: "\<forall>(c, cs) \<in> set (columns ?a). length cs = nrows ?a"
    using length_empty_df_column by auto
  note cc = cell_concat_rows[OF assms wf]
  assume "r < nrows h"
  then have r: "r < nrows ?a + nrows b"
    using cc(1) by (simp add: nrows_def)
  show "(\<forall>c. cell h c r = NaN)
        \<or> (\<exists>j < nrows b. canon (index b ! j) = canon (index h ! r) \<and> (\<forall>c. cell h c r = cell b c j))"
  proof (cases "r < nrows ?a")
    case True
    then show ?thesis using cc(2) by (simp add: cell_empty_df)
  next
    case False
    then have "r - nrows ?a < nrows b" "index h ! r = index b ! (r - nrows ?a)"
      using r cc(1) by (simp_all add: nrows_def nth_append)
    moreover have "\<forall>c. cell h c r = cell b c (r - nrows ?a)"
      using cc(3) False r by simp
    ultimately show ?thesis by auto
  qed
qed

lemma DataFrame_Inr:
  assumes "DataFrame idx f = Inr d"
  shows "exact_rows f d"
    and "set (index d) \<subseteq> (case idx of None \<Rightarrow> {} | Some ls \<Rightarrow> set ls) \<union> set (index f)"
  using assms
  by (auto simp: DataFrame_def exact_rows_refl exact_rows_reindex split: option.splits if_splits)

lemma realign_one_exact:
  assumes "realign_one idx f = Inr g"
  shows "exact_rows f g" and "labels_within idx f g"
proof -
  let ?ref = "(case idx of None \<Rightarrow> {} | Some ls \<Rightarrow> set ls)"
  have "exact_rows f g \<and> set (index g) \<subseteq> ?ref \<union> set (index f)"
  proof (cases "DataFrame idx f")
    case (Inr d)
    then have g: "g = drop_duplicated_index (drop_duplicates d)"
      using assms by (simp add: realign_one_def)
    have "exact_rows f g"
      unfolding g
      using DataFrame_Inr(1)[OF Inr] exact_rows_drop_duplicates[of d]
        exact_rows_drop_duplicated_index[of "drop_duplicates d"]
      by (blast intro: exact_rows_trans)
    moreover have "set (index g) \<subseteq> ?ref \<union> set (index f)"
      unfolding g
      using DataFrame_Inr(2)[OF Inr] labels_drop_duplicates[of d]
        labels_drop_duplicated_index[of "drop_duplicates d"]
      by blast
    ultimately show ?thesis by simp
  next
    case (Inl e)
    then obtain h where h: "concat_rows (empty_df idx) (dropna f) = Inr h"
      and g: "g = drop_duplicated_index h"
      using assms by (auto simp: realign_one_def split: sum.splits)
    have "exact_rows f g"
      unfolding g
      using exact_rows_dropna[of f] exact_rows_concat_placeholder[OF h]
        exact_rows_drop_duplicated_index[of h]
      by (blast intro: exact_rows_trans)
    moreover have "index h = index (empty_df idx) @ index (dropna f)"
      using h by (auto simp: concat_rows_def Let_def split: if_splits)
    then have "set (index h) \<subseteq> ?ref \<union> set (index f)"
      using labels_dropna[of f] by (auto simp: index_empty_df split: option.splits)
    then have "set (index g) \<subseteq> ?ref \<union> set (index f)"
      unfolding g using labels_drop_duplicated_index[of h] by blast
    ultimately show ?thesis by simp
  qed
  then show "exact_rows f g" and "labels_within idx f g"
    by (auto simp: labels_within_def)
qed

lemma realign_one_unique: "realign_one idx f = Inr g \<Longrightarrow> is_unique (index g)"
  by (auto simp: realign_one_def drop_duplicated_index_unique split: sum.splits)

lemma realign_entries_exact:
  assumes "realign_entries idx dfs = Inr dfs'"
  shows "list_all2 (\<lambda>(k, f) (k', g). k' = k \<and> is_unique (index g)
            \<and> labels_within idx f g \<and> exact_rows f g) dfs dfs'"
  using assms
proof (induction dfs arbitrary: dfs')
  case Nil
  then show ?case by simp
next
  case (Cons kf dfs)
  obtain k f where kf: "kf = (k, f)" by (cases kf)
  obtain g rest where g: "realign_one idx f = Inr g" and rest: "realign_entries idx dfs = Inr rest"
    and d: "dfs' = (k, g) # rest"
    using Cons.prems kf by (auto split: sum.splits)
  show ?case
    using Cons.IH[OF rest] realign_one_unique[OF g] realign_one_exact[OF g] kf d by simp
qed

subsection \<open>The claims\<close>

text \<open>
  C10. Called with \<open>ignore_tz = None\<close>, \<open>download\<close> sets \<open>ignore_tz\<close> to False exactly
  when the interval string without its first character is \<open>m\<close> or \<open>h\<close>. So the
  one-digit intraday intervals 1m, 2m, 5m and 1h keep timezones, and the intraday
  intervals 15m, 30m, 60m and 90m get \<open>ignore_tz = True\<close>, as the daily and longer
  intervals 1d, 5d, 1wk, 1mo and 3mo do.
\<close>

theorem ignore_tz_default_one_digit_only:
  "(resolve_ignore_tz None iv = False) = (drop 1 iv = ''m'' \<or> drop 1 iv = ''h'')
   \<and> resolve_ignore_tz None ''1m'' = False \<and> resolve_ignore_tz None ''2m'' = False
   \<and> resolve_ignore_tz None ''5m'' = False \<and> resolve_ignore_tz None ''1h'' = False
   \<and> resolve_ignore_tz None ''15m'' = True \<and> resolve_ignore_tz None ''30m'' = True
   \<and> resolve_ignore_tz None ''60m'' = True \<and> resolve_ignore_tz None ''90m'' = True
   \<and> resolve_ignore_tz None ''1d'' = True \<and> resolve_ignore_tz None ''5d'' = True
   \<and> resolve_ignore_tz None ''1wk'' = True \<and> resolve_ignore_tz None ''1mo'' = True
   \<and> resolve_ignore_tz None ''3mo'' = True"
  by (simp add: resolve_ignore_tz_def)




text \<open>
  C9, as the code has it. In a call of \<open>download\<close> that returns, the fetches assign
  each distinct uppercased symbol's key exactly once in the result map (the fetched
  frame or the empty placeholder) and at most once in the error map and in the
  traceback map, and assign no other key. After the fetches no key is assigned again
  when the first concatenation succeeds; when it raises, \<open>_realign_dfs\<close> assigns every
  key of the result map twice more before the call returns.
\<close>

theorem write_once_until_realign:
  assumes so: "enumerates (set_order w)"
    and ret: "download w cfg tickers = Returns (tbl, sh)"
  shows "\<exists>ts sh2. before_concat w cfg tickers = Returns (ts, sh2) \<and> distinct ts
           \<and> (\<forall>key \<in> set ts.
                 count_list (assigned sh2) (DFS_map, key) = 1
                 \<and> count_list (assigned sh2) (ERRORS_map, key) \<le> 1
                 \<and> count_list (assigned sh2) (TRACEBACKS_map, key) \<le> 1)
           \<and> (\<forall>m key. key \<notin> set ts \<longrightarrow> count_list (assigned sh2) (m, key) = 0)
           \<and> assigned sh = assigned sh2 @
                (if isl (concat_columns w (DFS sh2))
                 then concat (map (\<lambda>key. [(DFS_map, key), (DFS_map, key)]) (map fst (DFS sh2)))
                 else [])"
proof -
  obtain isins resolved where
    isin: "accept_isins w (ticker_list tickers) [] [] = Inr (isins, resolved)"
    using download_Returns_prepared[OF ret] by blast
  obtain ts sh2 data where b: "before_concat w cfg tickers = Returns (ts, sh2)"
    and r: "reconcile w sh2 = Inr (data, sh)"
    using download_Returns[OF ret] by blast
  obtain sh1 where a: "after_fetch w cfg tickers = Returns (ts, sh1)"
    and e: "sh2 = (if resolve_ignore_tz (ignore_tz cfg) (interval cfg)
                   then sh1\<lparr>DFS := strip_tz (DFS sh1)\<rparr> else sh1)"
    using before_concat_Returns[OF b] by blast
  have as: "assigned sh1 = assigned sh2"
    using e by simp
  note fc = fetch_counts[OF so isin a, unfolded as]
  show ?thesis
    using b fc reconcile_assigned[OF r] by blast
qed

theorem write_once_until_realign_witness:
  "enumerates (set_order dup_world)
   \<and> download dup_world by_ticker_config (TickerList [''A'', ''B''])
       = Returns (realigned_table, realigned_shared)
   \<and> (\<exists>ts sh2. before_concat dup_world by_ticker_config (TickerList [''A'', ''B''])
                  = Returns (ts, sh2) \<and> distinct ts
          \<and> (\<forall>key \<in> set ts.
                count_list (assigned sh2) (DFS_map, key) = 1
                \<and> count_list (assigned sh2) (ERRORS_map, key) \<le> 1
                \<and> count_list (assigned sh2) (TRACEBACKS_map, key) \<le> 1)
          \<and> (\<forall>m key. key \<notin> set ts \<longrightarrow> count_list (assigned sh2) (m, key) = 0)
          \<and> assigned realigned_shared = assigned sh2 @
               (if isl (concat_columns dup_world (DFS sh2))
                then concat (map (\<lambda>key. [(DFS_map, key), (DFS_map, key)]) (map fst (DFS sh2)))
                else []))"
proof -
  have h1: "enumerates (set_order dup_world)"
    by (simp add: enumerates_def dup_world_def)
  have h3: "download dup_world by_ticker_config (TickerList [''A'', ''B''])
       = Returns (realigned_table, realigned_shared)"
    by code_simp
  show ?thesis
    using write_once_until_realign[OF h1 h3] h1 h3 by blast
qed

text \<open>
  C9 as stated fails: in this call the first concatenation raises, because B has a
  timestamp twice, and the key of A is assigned three times in the result map before
  the call returns.
\<close>

theorem realign_reassigns_keys:
  "download dup_world by_ticker_config (TickerList [''A'', ''B''])
     = Returns (realigned_table, realigned_shared)
   \<and> concat_columns dup_world [(''A'', a_frame), (''B'', b_frame)] = Inl InvalidIndexError
   \<and> count_list (assigned realigned_shared) (DFS_map, ''A'') = 3
   \<and> count_list (assigned realigned_shared) (DFS_map, ''B'') = 3"
  by code_simp

end
